theory Spec2Isabelle
  imports Complex_Main "HOL-Library.Monad_Syntax" "HOL-Library.Sublist" "HOL-Library.Char_ord"
begin

section \<open>Orthogonal edge router\<close>

text \<open>
  The router works on JavaScript numbers.  They are modelled as exact real numbers
  (\<^typ>\<open>real\<close>): every comparison and every sum of the source is taken without
  rounding.  A flat coordinate array \<^verbatim>\<open>[x0, y0, x1, y1, ...]\<close> of the source is
  modelled as a list of points; all arrays the router builds have even length, so
  \<^verbatim>\<open>pts.length <= 4\<close> reads \<open>length pts \<le> 2\<close> and \<^verbatim>\<open>pts.length < 8\<close>
  reads \<open>length pts < 4\<close>.
\<close>

type_synonym point = "real \<times> real"

definition ROUTE_GRID :: real where
  "ROUTE_GRID = 24"

definition ROUTE_PAD :: real where
  "ROUTE_PAD = 260"

definition ROUTE_MAX_ITERS :: nat where
  "ROUTE_MAX_ITERS = 40000"

datatype AARect = AARect (rect_x: real) (rect_y: real) (rect_w: real) (rect_h: real)

definition pointInRect :: "real \<Rightarrow> real \<Rightarrow> AARect \<Rightarrow> bool" where
  "pointInRect px py r \<longleftrightarrow>
     px \<ge> rect_x r \<and> px \<le> rect_x r + rect_w r \<and> py \<ge> rect_y r \<and> py \<le> rect_y r + rect_h r"

text \<open>
  \<^verbatim>\<open>Math.round\<close> rounds to the nearest integer, a tie towards plus infinity.  The
  only call of the router passes \<open>step = ROUTE_GRID\<close>; for \<open>step = 0\<close> the source
  computes \<^verbatim>\<open>NaN\<close> where the model, dividing by zero, computes \<open>0\<close>.
\<close>

definition snap :: "real \<Rightarrow> real \<Rightarrow> real" where
  "snap v step = of_int \<lfloor>v / step + 1 / 2\<rfloor> * step"

subsection \<open>compressOrthogonal\<close>

definition collinear :: "point \<Rightarrow> point \<Rightarrow> point \<Rightarrow> bool" where
  "collinear p o' q \<longleftrightarrow>
     (fst p = fst o' \<and> fst o' = fst q) \<or> (snd p = snd o' \<and> snd o' = snd q)"

text \<open>
  The body of the \<^verbatim>\<open>for\<close> loop of \<^verbatim>\<open>compressOrthogonal\<close>: \<open>out\<close> is the array
  built so far, \<open>q\<close> the point read at index \<open>i\<close>.
\<close>

fun compress_loop :: "point list \<Rightarrow> point list \<Rightarrow> point list" where
  "compress_loop out [] = out"
| "compress_loop out (q # rest) =
     (if q = last out then compress_loop out rest
      else if length out \<ge> 2 \<and> collinear (out ! (length out - 2)) (last out) q
        then compress_loop (butlast out @ [q]) rest
      else compress_loop (out @ [q]) rest)"

definition compressOrthogonal :: "point list \<Rightarrow> point list" where
  "compressOrthogonal pts =
     (if length pts \<le> 2 then pts else compress_loop [hd pts] (tl pts))"

subsection \<open>enforceRightAngleEndpoints\<close>

definition corner_after_start :: "point list \<Rightarrow> point list" where
  "corner_after_start out =
     (let s = out ! 0; n = out ! 1 in
      if fst s \<noteq> fst n \<and> snd s \<noteq> snd n
      then s # (fst n, snd s) # tl out
      else out)"

definition corner_before_end :: "point list \<Rightarrow> point list" where
  "corner_before_end out =
     (let n = length out; e = out ! (n - 1); p = out ! (n - 2) in
      if fst e \<noteq> fst p \<and> snd e \<noteq> snd p
      then butlast out @ [(fst p, snd e), e]
      else out)"

definition enforceRightAngleEndpoints :: "point list \<Rightarrow> point list" where
  "enforceRightAngleEndpoints pts =
     (if length pts < 4 then pts
      else compressOrthogonal (corner_before_end (corner_after_start pts)))"

subsection \<open>routeManhattanAStar\<close>

definition isBlocked :: "real \<Rightarrow> real \<Rightarrow> AARect list \<Rightarrow> bool" where
  "isBlocked px py obstacles = list_ex (pointInRect px py) obstacles"

definition manhattan :: "point \<Rightarrow> point \<Rightarrow> real" where
  "manhattan a b = \<bar>fst a - fst b\<bar> + \<bar>snd a - snd b\<bar>"

text \<open>The search window \<^verbatim>\<open>minX, minY, maxX, maxY\<close> around start, goal and obstacles.\<close>

datatype bounds = Bounds (minX: real) (minY: real) (maxX: real) (maxY: real)

definition routeBounds :: "point \<Rightarrow> point \<Rightarrow> AARect list \<Rightarrow> bounds" where
  "routeBounds start goal obstacles =
     Bounds
       (fold min (map rect_x obstacles) (min (fst start) (fst goal)) - ROUTE_PAD)
       (fold min (map rect_y obstacles) (min (snd start) (snd goal)) - ROUTE_PAD)
       (fold max (map (\<lambda>r. rect_x r + rect_w r) obstacles) (max (fst start) (fst goal)) + ROUTE_PAD)
       (fold max (map (\<lambda>r. rect_y r + rect_h r) obstacles) (max (snd start) (snd goal)) + ROUTE_PAD)"

definition inBounds :: "bounds \<Rightarrow> point \<Rightarrow> bool" where
  "inBounds b c \<longleftrightarrow>
     fst c \<ge> minX b \<and> fst c \<le> maxX b \<and> snd c \<ge> minY b \<and> snd c \<le> maxY b"

definition nudge_candidates :: "real \<Rightarrow> point \<Rightarrow> point list" where
  "nudge_candidates step c =
     [ (fst c + step, snd c),
       (fst c - step, snd c),
       (fst c, snd c + step),
       (fst c, snd c - step),
       (fst c + step * 2, snd c),
       (fst c - step * 2, snd c) ]"

definition nudgeOut :: "bounds \<Rightarrow> AARect list \<Rightarrow> real \<Rightarrow> point \<Rightarrow> point" where
  "nudgeOut b obstacles step c =
     (if \<not> isBlocked (fst c) (snd c) obstacles then c
      else case find (\<lambda>k. inBounds b k \<and> \<not> isBlocked (fst k) (snd k) obstacles)
                     (nudge_candidates step c) of
             Some ok \<Rightarrow> ok
           | None \<Rightarrow> c)"

definition neighbors :: "real \<Rightarrow> point \<Rightarrow> point list" where
  "neighbors step c =
     [ (fst c + step, snd c),
       (fst c - step, snd c),
       (fst c, snd c + step),
       (fst c, snd c - step) ]"

text \<open>
  The maps of the search are keyed by \<^verbatim>\<open>keyOf(c)\<close>, the string \<^verbatim>\<open>"x,y"\<close>; the key
  determines the cell and is parsed back to it, so the maps are modelled with the
  cell itself as key.  A missing score reads as \<^verbatim>\<open>Infinity\<close>, modelled by \<open>None\<close>.
\<close>

record astate =
  openl :: "point list"
  cameFrom :: "point \<rightharpoonup> point"
  gScore :: "point \<rightharpoonup> nat"
  fScore :: "point \<rightharpoonup> real"
  iters :: nat

text \<open>\<open>lt_inf a b\<close> is \<^verbatim>\<open>a < b\<close> on scores, \<open>None\<close> being \<^verbatim>\<open>Infinity\<close>.\<close>

definition lt_inf :: "('a::linorder) option \<Rightarrow> 'a option \<Rightarrow> bool" where
  "lt_inf a b = (case a of None \<Rightarrow> False
                 | Some u \<Rightarrow> (case b of None \<Rightarrow> True | Some v \<Rightarrow> u < v))"

fun bestIndex_loop ::
  "(point \<rightharpoonup> real) \<Rightarrow> point list \<Rightarrow> nat \<Rightarrow> nat \<Rightarrow> real option \<Rightarrow> nat" where
  "bestIndex_loop fs [] i best bestF = best"
| "bestIndex_loop fs (c # cs) i best bestF =
     (if lt_inf (fs c) bestF then bestIndex_loop fs cs (Suc i) i (fs c)
      else bestIndex_loop fs cs (Suc i) best bestF)"

definition bestIndex :: "astate \<Rightarrow> nat" where
  "bestIndex st = bestIndex_loop (fScore st) (openl st) 0 0 None"

text \<open>One pass of the loop over \<^verbatim>\<open>neighbors(current)\<close>.\<close>

definition relax :: "bounds \<Rightarrow> AARect list \<Rightarrow> point \<Rightarrow> point \<Rightarrow> astate \<Rightarrow> point \<Rightarrow> astate" where
  "relax b obstacles g current st nb =
     (if \<not> inBounds b nb then st
      else if isBlocked (fst nb) (snd nb) obstacles then st
      else
        let tentative = map_option Suc (gScore st current) in
        if lt_inf tentative (gScore st nb) then
          st\<lparr> cameFrom := (cameFrom st)(nb \<mapsto> current),
              gScore := (gScore st)(nb := tentative),
              fScore := (fScore st)(nb := map_option (\<lambda>t. of_nat t + manhattan nb g) tentative),
              openl := (if list_ex (\<lambda>o'. fst o' = fst nb \<and> snd o' = snd nb) (openl st)
                        then openl st else openl st @ [nb]) \<rparr>
        else st)"

text \<open>
  The main \<^verbatim>\<open>while\<close> loop.  It returns the state in which it stopped together with
  the cell at which \<^verbatim>\<open>cKey === gKey\<close> held, or \<open>None\<close> when the loop ran out (the
  \<^verbatim>\<open>return null\<close> after it).
\<close>

function astar_loop ::
  "bounds \<Rightarrow> AARect list \<Rightarrow> real \<Rightarrow> point \<Rightarrow> astate \<Rightarrow> astate \<times> point option" where
  "astar_loop b obstacles step g st =
     (if openl st \<noteq> [] \<and> iters st < ROUTE_MAX_ITERS then
        let st1 = st\<lparr>iters := iters st + 1\<rparr>;
            idx = bestIndex st1;
            current = openl st1 ! idx;
            st2 = st1\<lparr>openl := take idx (openl st1) @ drop (Suc idx) (openl st1)\<rparr>
        in if current = g then (st2, Some current)
           else astar_loop b obstacles step g
                  (fold (\<lambda>nb s. relax b obstacles g current s nb) (neighbors step current) st2)
      else (st, None))"
  by pat_completeness auto

lemma iters_relax [simp]: "iters (relax b obstacles g current st nb) = iters st"
  by (simp add: relax_def Let_def)

lemma iters_fold_relax [simp]:
  "iters (fold (\<lambda>nb s. relax b obstacles g current s nb) nbs st) = iters st"
  by (induction nbs arbitrary: st) simp_all

termination astar_loop
  by (relation "measure (\<lambda>(b, obstacles, step, g, st). ROUTE_MAX_ITERS - iters st)") auto

declare astar_loop.simps [simp del]

text \<open>
  The backtracking loop \<^verbatim>\<open>while (cameFrom.has(k))\<close>: it follows the parent links
  and appends each predecessor to \<open>path\<close>.  Nothing in the loop itself bounds it, so
  it is a partial function: \<open>None\<close> stands for a loop that does not return.
\<close>

partial_function (option) backtrack ::
  "(point \<rightharpoonup> point) \<Rightarrow> point \<Rightarrow> point list \<Rightarrow> point list option" where
  "backtrack cf k path =
     (case cf k of
        None \<Rightarrow> Some path
      | Some prev \<Rightarrow> backtrack cf prev (path @ [prev]))"

declare backtrack.simps [code]

text \<open>
  \<^verbatim>\<open>pts[0] = startWorld.x; pts[1] = startWorld.y; pts[pts.length - 2] = endWorld.x;
  pts[pts.length - 1] = endWorld.y\<close>: the first point is overwritten, then the last.
\<close>

definition exact_endpoints :: "point \<Rightarrow> point \<Rightarrow> point list \<Rightarrow> point list" where
  "exact_endpoints startWorld endWorld pts =
     (pts[0 := startWorld])[length pts - 1 := endWorld]"

definition search_start :: "point \<Rightarrow> real \<Rightarrow> point" where
  "search_start w step = (snap (fst w) step, snap (snd w) step)"

definition astar_init :: "point \<Rightarrow> point \<Rightarrow> astate" where
  "astar_init s g =
     \<lparr> openl = [s], cameFrom = Map.empty, gScore = [s \<mapsto> 0],
       fScore = [s \<mapsto> manhattan s g], iters = 0 \<rparr>"

text \<open>
  The cells \<open>s\<close> and \<open>g\<close> between which the search runs: the snapped anchors after
  \<^verbatim>\<open>nudgeOut\<close>.
\<close>

definition route_s :: "point \<Rightarrow> point \<Rightarrow> AARect list \<Rightarrow> real \<Rightarrow> point" where
  "route_s startWorld endWorld obstacles step =
     (let start = search_start startWorld step; goal = search_start endWorld step
      in nudgeOut (routeBounds start goal obstacles) obstacles step start)"

definition route_g :: "point \<Rightarrow> point \<Rightarrow> AARect list \<Rightarrow> real \<Rightarrow> point" where
  "route_g startWorld endWorld obstacles step =
     (let start = search_start startWorld step; goal = search_start endWorld step
      in nudgeOut (routeBounds start goal obstacles) obstacles step goal)"

definition route_search ::
  "point \<Rightarrow> point \<Rightarrow> AARect list \<Rightarrow> real \<Rightarrow> astate \<times> point option" where
  "route_search startWorld endWorld obstacles step =
     (let start = search_start startWorld step; goal = search_start endWorld step;
          s = route_s startWorld endWorld obstacles step;
          g = route_g startWorld endWorld obstacles step
      in astar_loop (routeBounds start goal obstacles) obstacles step g (astar_init s g))"

text \<open>
  \<open>routeManhattanAStar\<close> returns \<open>Some (Some pts)\<close> for a path, \<open>Some None\<close> for
  \<^verbatim>\<open>null\<close>, and \<open>None\<close> if the call does not return.
\<close>

definition routeManhattanAStar ::
  "point \<Rightarrow> point \<Rightarrow> AARect list \<Rightarrow> real \<Rightarrow> point list option option" where
  "routeManhattanAStar startWorld endWorld obstacles step =
     (case route_search startWorld endWorld obstacles step of
        (st, None) \<Rightarrow> Some None
      | (st, Some current) \<Rightarrow>
          map_option (\<lambda>path. Some (compressOrthogonal
                                     (exact_endpoints startWorld endWorld (rev path))))
            (backtrack (cameFrom st) current [current]))"

subsection \<open>The routing pipeline of edgePaths\<close>

definition fallback_path :: "point \<Rightarrow> point \<Rightarrow> point list" where
  "fallback_path start end' =
     compressOrthogonal
       [ start,
         ((fst start + fst end') / 2, snd start),
         ((fst start + fst end') / 2, snd end'),
         end' ]"

text \<open>
  \<^verbatim>\<open>ptsRaw = routeManhattanAStar(start, end, obstacles, ROUTE_GRID) ?? fallback\<close> and
  \<^verbatim>\<open>pts = enforceRightAngleEndpoints(ptsRaw)\<close>.
\<close>

definition route_raw :: "point \<Rightarrow> point \<Rightarrow> AARect list \<Rightarrow> point list option" where
  "route_raw start end' obstacles =
     map_option (\<lambda>r. case r of Some pts \<Rightarrow> pts | None \<Rightarrow> fallback_path start end')
       (routeManhattanAStar start end' obstacles ROUTE_GRID)"

definition edge_points :: "point \<Rightarrow> point \<Rightarrow> AARect list \<Rightarrow> point list option" where
  "edge_points start end' obstacles =
     map_option enforceRightAngleEndpoints (route_raw start end' obstacles)"

subsection \<open>Predicates of the statements about the router\<close>

text \<open>
  \<open>axis_step p q\<close>: the two points differ in exactly one coordinate.  \<open>aligned p q\<close>:
  they share at least one coordinate (the segment is not diagonal; it may have length
  zero).
\<close>

definition aligned :: "point \<Rightarrow> point \<Rightarrow> bool" where
  "aligned p q \<longleftrightarrow> fst p = fst q \<or> snd p = snd q"

definition axis_step :: "point \<Rightarrow> point \<Rightarrow> bool" where
  "axis_step p q \<longleftrightarrow> (fst p = fst q) \<noteq> (snd p = snd q)"

definition orthogonal_path :: "point list \<Rightarrow> bool" where
  "orthogonal_path pts = successively axis_step pts"

definition no_diagonal :: "point list \<Rightarrow> bool" where
  "no_diagonal pts = successively aligned pts"

text \<open>
  \<open>nudge_ok\<close> is the test \<^verbatim>\<open>inBounds(k) && !isBlocked(k.x, k.y, obstacles)\<close> that
  \<^verbatim>\<open>nudgeOut\<close> applies to a candidate.
\<close>

definition nudge_ok :: "bounds \<Rightarrow> AARect list \<Rightarrow> point \<Rightarrow> bool" where
  "nudge_ok b obstacles k \<longleftrightarrow> inBounds b k \<and> \<not> isBlocked (fst k) (snd k) obstacles"

text \<open>
  Two invariants of the search state.  \<open>chain_inv\<close>: along every parent link the
  recorded cost strictly decreases.  \<open>adj_inv\<close>: every parent link joins two cells
  that share a coordinate.
\<close>

definition chain_inv :: "astate \<Rightarrow> bool" where
  "chain_inv st \<longleftrightarrow>
     (\<forall>k p. cameFrom st k = Some p \<longrightarrow>
        (\<exists>m n. gScore st p = Some m \<and> gScore st k = Some n \<and> m < n))"

definition adj_inv :: "astate \<Rightarrow> bool" where
  "adj_inv st \<longleftrightarrow> (\<forall>k p. cameFrom st k = Some p \<longrightarrow> aligned p k)"

text \<open>
  \<open>nudged b obstacles step c r\<close>: the cell \<open>r\<close> is what the replacement of a snapped
  cell \<open>c\<close> is said to be.  A free cell is kept; for a blocked cell, the first of the
  six candidates that is in bounds and free replaces it and is outside every obstacle;
  a blocked cell none of whose candidates is in bounds and free is kept.
\<close>

definition nudged :: "bounds \<Rightarrow> AARect list \<Rightarrow> real \<Rightarrow> point \<Rightarrow> point \<Rightarrow> bool" where
  "nudged b obstacles step c r \<longleftrightarrow>
     (\<not> isBlocked (fst c) (snd c) obstacles \<longrightarrow> r = c)
     \<and> (isBlocked (fst c) (snd c) obstacles \<longrightarrow>
          (\<forall>i<6. nudge_ok b obstacles (nudge_candidates step c ! i)
                   \<and> (\<forall>j<i. \<not> nudge_ok b obstacles (nudge_candidates step c ! j))
                 \<longrightarrow> r = nudge_candidates step c ! i \<and> \<not> isBlocked (fst r) (snd r) obstacles))
     \<and> (isBlocked (fst c) (snd c) obstacles
          \<and> (\<forall>i<6. \<not> nudge_ok b obstacles (nudge_candidates step c ! i)) \<longrightarrow> r = c)"

text \<open>
  \<open>root_inv s\<close>: the start cell \<open>s\<close> has cost \<open>0\<close> and no parent, every other cell
  with a cost has a parent, and every open cell has a cost.
\<close>

definition root_inv :: "point \<Rightarrow> astate \<Rightarrow> bool" where
  "root_inv s st \<longleftrightarrow>
     gScore st s = Some 0 \<and> cameFrom st s = None
     \<and> (\<forall>k. gScore st k \<noteq> None \<longrightarrow> k = s \<or> cameFrom st k \<noteq> None)
     \<and> (\<forall>c\<in>set (openl st). gScore st c \<noteq> None)"

section \<open>Regular expressions\<close>

text \<open>
  A JavaScript string is modelled as a \<^typ>\<open>string\<close>: a list of 8-bit characters,
  the code units below 256.  On them \<^verbatim>\<open>\s\<close> is tab, line feed, vertical tab, form
  feed, carriage return, space and no-break space, a line terminator is line feed or
  carriage return, and \<^verbatim>\<open>\w\<close> is a letter of ASCII, a digit or the underscore.

  The regular expressions of the source are values of the datatype \<open>re\<close>, and \<open>ms\<close>
  is the backtracking matcher of ECMAScript: \<open>ms fl r st\<close> lists, in the order in which
  backtracking tries them, the states in which a match of \<open>r\<close> from the state \<open>st\<close>
  can end.  A state is the character before the position, the text from the position
  on, and the captures.  The first state of the list is the match the source finds.
\<close>

definition dq :: char where "dq = CHR 0x22"
definition sq :: char where "sq = CHR 0x27"

definition is_space :: "char \<Rightarrow> bool" where
  "is_space c \<longleftrightarrow> c \<in> set [CHR 0x09, CHR 0x0A, CHR 0x0B, CHR 0x0C, CHR 0x0D, CHR 0x20, CHR 0xA0]"

definition is_line_terminator :: "char \<Rightarrow> bool" where
  "is_line_terminator c \<longleftrightarrow> c = CHR 0x0A \<or> c = CHR 0x0D"

text \<open>Characters are compared by their code (the order of \<open>Char_ord\<close>).\<close>

definition in_range :: "char \<Rightarrow> char \<Rightarrow> char \<Rightarrow> bool" where
  "in_range lo hi c \<longleftrightarrow> lo \<le> c \<and> c \<le> hi"

definition is_word :: "char \<Rightarrow> bool" where
  "is_word c \<longleftrightarrow> in_range CHR ''a'' CHR ''z'' c \<or> in_range CHR ''A'' CHR ''Z'' c
                 \<or> in_range CHR ''0'' CHR ''9'' c \<or> c = CHR ''_''"

text \<open>
  Case conversion of one character.  On the letters of ASCII and of Latin-1 the two
  cases differ by 32, that is by bit 5 of the code: \<open>clear_bit5\<close> subtracts 32 from
  the code of a lower-case letter, \<open>set_bit5\<close> adds 32 to the code of an upper-case
  letter.  Every other character is left as it is.
\<close>

definition clear_bit5 :: "char \<Rightarrow> char" where
  "clear_bit5 c = (case c of Char b0 b1 b2 b3 b4 b5 b6 b7 \<Rightarrow> Char b0 b1 b2 b3 b4 False b6 b7)"

definition set_bit5 :: "char \<Rightarrow> char" where
  "set_bit5 c = (case c of Char b0 b1 b2 b3 b4 b5 b6 b7 \<Rightarrow> Char b0 b1 b2 b3 b4 True b6 b7)"

definition toUpperCase_char :: "char \<Rightarrow> char" where
  "toUpperCase_char c =
     (if in_range CHR ''a'' CHR ''z'' c \<or> (in_range CHR 0xE0 CHR 0xFE c \<and> c \<noteq> CHR 0xF7)
      then clear_bit5 c else c)"

definition toLowerCase_char :: "char \<Rightarrow> char" where
  "toLowerCase_char c =
     (if in_range CHR ''A'' CHR ''Z'' c \<or> (in_range CHR 0xC0 CHR 0xDE c \<and> c \<noteq> CHR 0xD7)
      then set_bit5 c else c)"

datatype citem = CChar char | CRange char char | CSpace | CNotSpace | CWord

datatype re =
    Eps
  | Lit char
  | Dot
  | Cls bool "citem list"
  | Bol
  | Eol
  | WordB
  | Seq re re
  | Alt re re
  | Grp nat re
  | Opt re
  | Star bool re

record flags =
  ignoreCase :: bool
  multiline :: bool

fun citem_has :: "citem \<Rightarrow> char \<Rightarrow> bool" where
  "citem_has (CChar a) c = (a = c)"
| "citem_has (CRange lo hi) c = in_range lo hi c"
| "citem_has CSpace c = is_space c"
| "citem_has CNotSpace c = (\<not> is_space c)"
| "citem_has CWord c = is_word c"

definition canon_eq :: "flags \<Rightarrow> char \<Rightarrow> char \<Rightarrow> bool" where
  "canon_eq fl a c = (if ignoreCase fl then toUpperCase_char a = toUpperCase_char c else a = c)"

definition cls_has :: "flags \<Rightarrow> citem list \<Rightarrow> char \<Rightarrow> bool" where
  "cls_has fl items c =
     (list_ex (\<lambda>it. citem_has it c) items
      \<or> (ignoreCase fl \<and> (list_ex (\<lambda>it. citem_has it (toUpperCase_char c)) items
                          \<or> list_ex (\<lambda>it. citem_has it (toLowerCase_char c)) items)))"

type_synonym rstate = "char option \<times> string \<times> (nat \<rightharpoonup> string)"

fun groups :: "re \<Rightarrow> nat list" where
  "groups (Seq a b) = groups a @ groups b"
| "groups (Alt a b) = groups a @ groups b"
| "groups (Grp n r) = n # groups r"
| "groups (Opt r) = groups r"
| "groups (Star g r) = groups r"
| "groups _ = []"

definition reset :: "re \<Rightarrow> rstate \<Rightarrow> rstate" where
  "reset r st = (case st of (p, s, cs) \<Rightarrow> (p, s, (\<lambda>k. if k \<in> set (groups r) then None else cs k)))"

definition progress :: "rstate \<Rightarrow> rstate \<Rightarrow> bool" where
  "progress st st' \<longleftrightarrow> length (fst (snd st')) < length (fst (snd st))"

definition one_char :: "(char \<Rightarrow> bool) \<Rightarrow> rstate \<Rightarrow> rstate list" where
  "one_char P st =
     (case st of (p, s, cs) \<Rightarrow>
        (case s of [] \<Rightarrow> [] | x # xs \<Rightarrow> if P x then [(Some x, xs, cs)] else []))"

definition is_word_opt :: "char option \<Rightarrow> bool" where
  "is_word_opt c = (case c of None \<Rightarrow> False | Some x \<Rightarrow> is_word x)"

definition next_char :: "rstate \<Rightarrow> char option" where
  "next_char st = (case fst (snd st) of [] \<Rightarrow> None | x # _ \<Rightarrow> Some x)"

definition set_group :: "nat \<Rightarrow> rstate \<Rightarrow> rstate \<Rightarrow> rstate" where
  "set_group n st st' =
     (case st' of (p', s', cs') \<Rightarrow>
        (p', s', cs'(n \<mapsto> take (length (fst (snd st)) - length s') (fst (snd st)))))"

function ms :: "flags \<Rightarrow> re \<Rightarrow> rstate \<Rightarrow> rstate list" where
  "ms fl Eps st = [st]"
| "ms fl (Lit a) st = one_char (canon_eq fl a) st"
| "ms fl Dot st = one_char (\<lambda>c. \<not> is_line_terminator c) st"
| "ms fl (Cls neg items) st = one_char (\<lambda>c. cls_has fl items c \<noteq> neg) st"
| "ms fl Bol st =
     (if fst st = None \<or> (multiline fl \<and> is_line_terminator (the (fst st))) then [st] else [])"
| "ms fl Eol st =
     (if next_char st = None \<or> (multiline fl \<and> is_line_terminator (the (next_char st)))
      then [st] else [])"
| "ms fl WordB st = (if is_word_opt (fst st) \<noteq> is_word_opt (next_char st) then [st] else [])"
| "ms fl (Seq a b) st = concat (map (ms fl b) (ms fl a st))"
| "ms fl (Alt a b) st = ms fl a st @ ms fl b st"
| "ms fl (Grp n r) st = map (set_group n st) (ms fl r st)"
| "ms fl (Opt r) st = filter (progress st) (ms fl r (reset r st)) @ [st]"
| "ms fl (Star g r) st =
     (let more = concat (map (ms fl (Star g r)) (filter (progress st) (ms fl r (reset r st))))
      in if g then more @ [st] else st # more)"
  by pat_completeness auto
termination
  by (relation "measures [\<lambda>(fl, r, st). size r, \<lambda>(fl, r, st). length (fst (snd st))]")
     (auto simp: progress_def)

text \<open>The equation of \<open>Star\<close> calls itself: it is unfolded by hand only.\<close>

lemmas ms_Star = ms.simps(12)

declare ms.simps(12) [simp del]


definition Plus :: "bool \<Rightarrow> re \<Rightarrow> re" where
  "Plus g r = Seq r (Star g r)"

fun seqs :: "re list \<Rightarrow> re" where
  "seqs [] = Eps"
| "seqs [r] = r"
| "seqs (r # rs) = Seq r (seqs rs)"

definition str :: "string \<Rightarrow> re" where
  "str cs = seqs (map Lit cs)"

record rmatch =
  m_index :: nat
  m_end :: nat
  m_text :: string
  m_caps :: "nat \<rightharpoonup> string"

fun rx_search :: "flags \<Rightarrow> re \<Rightarrow> char option \<Rightarrow> string \<Rightarrow> nat \<Rightarrow> rmatch option" where
  "rx_search fl r prev [] idx =
     (case ms fl r (prev, [], Map.empty) of
        [] \<Rightarrow> None
      | st' # _ \<Rightarrow> Some \<lparr> m_index = idx, m_end = idx, m_text = [], m_caps = snd (snd st') \<rparr>)"
| "rx_search fl r prev (c # cs) idx =
     (case ms fl r (prev, c # cs, Map.empty) of
        [] \<Rightarrow> rx_search fl r (Some c) cs (Suc idx)
      | st' # _ \<Rightarrow>
          (let n = length (c # cs) - length (fst (snd st'))
           in Some \<lparr> m_index = idx, m_end = idx + n, m_text = take n (c # cs),
                     m_caps = snd (snd st') \<rparr>))"

definition rx_exec :: "flags \<Rightarrow> re \<Rightarrow> string \<Rightarrow> nat \<Rightarrow> rmatch option" where
  "rx_exec fl r s i =
     (if i > length s then None
      else rx_search fl r (if i = 0 then None else Some (s ! (i - 1))) (drop i s) i)"

definition rx_test :: "flags \<Rightarrow> re \<Rightarrow> string \<Rightarrow> bool" where
  "rx_test fl r s = (rx_exec fl r s 0 \<noteq> None)"

partial_function (option) rx_exec_all ::
  "flags \<Rightarrow> re \<Rightarrow> string \<Rightarrow> nat \<Rightarrow> rmatch list \<Rightarrow> rmatch list option" where
  "rx_exec_all fl r s i acc =
     (case rx_exec fl r s i of
        None \<Rightarrow> Some acc
      | Some m \<Rightarrow> rx_exec_all fl r s (m_end m) (acc @ [m]))"

declare rx_exec_all.simps [code]

function rx_replace :: "flags \<Rightarrow> re \<Rightarrow> string \<Rightarrow> char option \<Rightarrow> string \<Rightarrow> string" where
  "rx_replace fl r repl prev s =
     (case ms fl r (prev, s, Map.empty) of
        st' # _ \<Rightarrow>
          if length (fst (snd st')) < length s
          then repl @ rx_replace fl r repl (fst st') (fst (snd st'))
          else repl @ (case s of [] \<Rightarrow> [] | c # cs \<Rightarrow> c # rx_replace fl r repl (Some c) cs)
      | [] \<Rightarrow> (case s of [] \<Rightarrow> [] | c # cs \<Rightarrow> c # rx_replace fl r repl (Some c) cs))"
  by pat_completeness auto
termination
  by (relation "measure (\<lambda>(fl, r, repl, prev, s). length s)") auto

definition replace_all :: "flags \<Rightarrow> re \<Rightarrow> string \<Rightarrow> string \<Rightarrow> string" where
  "replace_all fl r repl s = rx_replace fl r repl None s"

subsection \<open>String operations\<close>

definition trim :: "string \<Rightarrow> string" where
  "trim s = rev (dropWhile is_space (rev (dropWhile is_space s)))"

definition slice :: "string \<Rightarrow> nat \<Rightarrow> nat \<Rightarrow> string" where
  "slice s a b = take (b - a) (drop a s)"

fun split_char :: "char \<Rightarrow> string \<Rightarrow> string list" where
  "split_char c [] = [[]]"
| "split_char c (x # xs) =
     (if x = c then [] # split_char c xs
      else (case split_char c xs of [] \<Rightarrow> [[x]] | y # ys \<Rightarrow> (x # y) # ys))"

fun find_sub :: "string \<Rightarrow> string \<Rightarrow> nat \<Rightarrow> nat option" where
  "find_sub nd [] j = (if nd = [] then Some j else None)"
| "find_sub nd (x # xs) j = (if prefix nd (x # xs) then Some j else find_sub nd xs (Suc j))"

definition indexOf :: "string \<Rightarrow> string \<Rightarrow> nat \<Rightarrow> nat option" where
  "indexOf hay nd i = find_sub nd (drop i hay) i"

definition skip_while :: "(char \<Rightarrow> bool) \<Rightarrow> string \<Rightarrow> nat \<Rightarrow> nat" where
  "skip_while P s p = p + length (takeWhile P (drop p s))"

definition toLowerCase :: "string \<Rightarrow> string" where
  "toLowerCase s = map toLowerCase_char s"

section \<open>Schema extractor\<close>

text \<open>
  The types of the source.  The fields \<^verbatim>\<open>name\<close>, \<^verbatim>\<open>type\<close>, \<^verbatim>\<open>values\<close>,
  \<^verbatim>\<open>table\<close>, ... bear a prefix here (\<open>e_\<close>, \<open>i_\<close>, \<open>c_\<close>, \<open>t_\<close>, \<open>r_\<close>); an
  optional field that the source leaves \<^verbatim>\<open>undefined\<close> is \<open>None\<close>, and the optional
  flags \<^verbatim>\<open>isForeignKey\<close> and \<^verbatim>\<open>isEnum\<close>, which the source only ever sets to
  \<^verbatim>\<open>true\<close>, are \<open>False\<close> where it leaves them unset.
\<close>

record SqlEnum =
  e_name :: string
  e_values :: "string list"

record SqlIndex =
  i_name :: string
  i_table :: string
  i_unique :: bool
  i_method :: "string option"
  i_expression :: string
  i_include :: "string option"
  i_where :: "string option"

record SqlColumn =
  c_name :: string
  c_type :: string
  isPrimaryKey :: bool
  isNotNull :: bool
  isForeignKey :: bool
  fkTo :: "(string \<times> string option) option"
  isEnum :: bool
  enumName :: "string option"

record SqlTable =
  t_name :: string
  columns :: "SqlColumn list"
  indexes :: "SqlIndex list"

record SqlRelation =
  r_id :: string
  fromTable :: string
  fromColumn :: string
  toTable :: string
  toColumn :: string

record SqlGraph =
  tables :: "SqlTable list"
  relations :: "SqlRelation list"
  enums :: "SqlEnum list"

subsection \<open>The regular expressions of the source\<close>

definition fl_none :: flags where "fl_none = \<lparr>ignoreCase = False, multiline = False\<rparr>"
definition fl_i :: flags where "fl_i = \<lparr>ignoreCase = True, multiline = False\<rparr>"
definition fl_m :: flags where "fl_m = \<lparr>ignoreCase = False, multiline = True\<rparr>"

text \<open>\<^verbatim>\<open>\s\<close>, \<^verbatim>\<open>\s+\<close>, \<^verbatim>\<open>\s*\<close>, \<^verbatim>\<open>[\s\S]\<close>, \<^verbatim>\<open>\w+\<close>, \<^verbatim>\<open>"?\<close> and \<^verbatim>\<open>"?[\w.]+"?\<close>.\<close>

definition ws :: re where "ws = Cls False [CSpace]"
definition ws1 :: re where "ws1 = Plus True ws"
definition ws0 :: re where "ws0 = Star True ws"
definition anych :: re where "anych = Cls False [CSpace, CNotSpace]"
definition word1 :: re where "word1 = Plus True (Cls False [CWord])"
definition oq :: re where "oq = Opt (Lit dq)"
definition qname :: re where "qname = seqs [oq, Plus True (Cls False [CWord, CChar CHR ''.'']), oq]"

text \<open>\<^verbatim>\<open>/--.*$/gm\<close> and \<^verbatim>\<open>/\/\*[\s\S]*?\*\//g\<close>\<close>

definition lineCommentRe :: re where
  "lineCommentRe = seqs [str ''--'', Star True Dot, Eol]"

definition blockCommentRe :: re where
  "blockCommentRe = seqs [str ''/*'', Star False anych, str ''*/'']"

definition stripComments :: "string \<Rightarrow> string" where
  "stripComments input = replace_all fl_none blockCommentRe '''' (replace_all fl_m lineCommentRe '''' input)"

definition normalizeWs :: "string \<Rightarrow> string" where
  "normalizeWs s = trim (replace_all fl_none ws1 '' '' s)"

text \<open>\<^verbatim>\<open>/^"+|"+$/g\<close>\<close>

definition quotesRe :: re where
  "quotesRe = Alt (Seq Bol (Plus True (Lit dq))) (Seq (Plus True (Lit dq)) Eol)"

definition unquoteIdent :: "string \<Rightarrow> string" where
  "unquoteIdent s = trim (replace_all fl_none quotesRe '''' s)"

definition normalizeTableName :: "string \<Rightarrow> string" where
  "normalizeTableName raw = last (split_char CHR ''.'' (unquoteIdent (trim raw)))"

text \<open>\<^verbatim>\<open>/\[\]$/g\<close>\<close>

definition arraySuffixRe :: re where
  "arraySuffixRe = seqs [str ''[]'', Eol]"

definition baseTypeOf :: "string \<Rightarrow> string" where
  "baseTypeOf t = trim (replace_all fl_none arraySuffixRe '''' t)"

subsection \<open>splitTopLevelComma\<close>

text \<open>
  The \<^verbatim>\<open>for\<close> loop over the characters of \<open>body\<close>; \<open>i\<close> is the index of the
  character at the head of the third argument.
\<close>

fun split_loop ::
  "string \<Rightarrow> string \<Rightarrow> nat \<Rightarrow> nat \<Rightarrow> nat \<Rightarrow> bool \<Rightarrow> bool \<Rightarrow> string list \<Rightarrow> string list" where
  "split_loop body [] i start depth inSingle inDouble parts =
     parts @ [trim (drop start body)]"
| "split_loop body (ch # rest) i start depth inSingle inDouble parts =
     (let inSingle1 = (if ch = sq \<and> \<not> inDouble then \<not> inSingle else inSingle);
          inDouble1 = (if ch = dq \<and> \<not> inSingle1 then \<not> inDouble else inDouble)
      in if \<not> inSingle1 \<and> \<not> inDouble1 then
           (let depth1 = (if ch = CHR ''('' then depth + 1 else depth);
                depth2 = (if ch = CHR '')'' then depth1 - 1 else depth1)
            in if ch = CHR '','' \<and> depth2 = 0
               then split_loop body rest (Suc i) (Suc i) depth2 inSingle1 inDouble1
                      (parts @ [trim (slice body start i)])
               else split_loop body rest (Suc i) start depth2 inSingle1 inDouble1 parts)
         else split_loop body rest (Suc i) start depth inSingle1 inDouble1 parts)"

definition splitTopLevelComma :: "string \<Rightarrow> string list" where
  "splitTopLevelComma body = filter (\<lambda>p. p \<noteq> []) (split_loop body body 0 0 0 False False [])"

subsection \<open>parseCreateTableBlocks\<close>

text \<open>
  The body scanner \<^verbatim>\<open>while (p < s.length && depth > 0)\<close>: the number of characters
  it consumes from the text that follows the opening parenthesis.
\<close>

fun scan_body :: "string \<Rightarrow> nat \<Rightarrow> bool \<Rightarrow> bool \<Rightarrow> nat" where
  "scan_body [] depth inSingle inDouble = 0"
| "scan_body (ch # rest) depth inSingle inDouble =
     (if depth > 0 then
        Suc (if ch = sq \<and> \<not> inDouble then scan_body rest depth (\<not> inSingle) inDouble
             else if ch = dq \<and> \<not> inSingle then scan_body rest depth inSingle (\<not> inDouble)
             else if \<not> inSingle \<and> \<not> inDouble then
               (if ch = CHR ''('' then scan_body rest (depth + 1) inSingle inDouble
                else if ch = CHR '')'' then scan_body rest (depth - 1) inSingle inDouble
                else scan_body rest depth inSingle inDouble)
             else scan_body rest depth inSingle inDouble)
      else 0)"

definition nth_opt :: "'a list \<Rightarrow> nat \<Rightarrow> 'a option" where
  "nth_opt xs i = (if i < length xs then Some (xs ! i) else None)"

text \<open>\<^verbatim>\<open>/[A-Za-z0-9_."\.]/\<close>\<close>

definition is_name_char :: "char \<Rightarrow> bool" where
  "is_name_char c \<longleftrightarrow>
     in_range CHR ''A'' CHR ''Z'' c \<or> in_range CHR ''a'' CHR ''z'' c \<or> in_range CHR ''0'' CHR ''9'' c
     \<or> c = CHR ''_'' \<or> c = CHR ''.'' \<or> c = dq"

lemma skip_while_ge: "p \<le> skip_while P s p"
  by (simp add: skip_while_def)

lemma find_sub_ge: "find_sub nd xs j = Some k \<Longrightarrow> j \<le> k"
  by (induction xs arbitrary: j) (auto split: if_splits dest: Suc_leD)

lemma indexOf_ge: "indexOf hay nd i = Some k \<Longrightarrow> i \<le> k"
  by (auto simp: indexOf_def dest: find_sub_ge)

function blocks_loop :: "string \<Rightarrow> nat \<Rightarrow> (string \<times> string) list \<Rightarrow> (string \<times> string) list" where
  "blocks_loop s i out =
     (if i < length s then
        (case indexOf (toLowerCase s) ''create table'' i of
           None \<Rightarrow> out
         | Some idx \<Rightarrow>
             let p0 = idx + length ''create table'';
                 p1 = skip_while is_space s p0;
                 (rawName, p2) =
                   (if nth_opt s p1 = Some dq
                    then let start = p1 + 1; pe = skip_while (\<lambda>c. c \<noteq> dq) s start
                         in (slice s start pe, pe + 1)
                    else let pe = skip_while is_name_char s p1 in (slice s p1 pe, pe));
                 name = normalizeTableName rawName;
                 p3 = skip_while (\<lambda>c. c \<noteq> CHR ''('') s p2
             in if p3 \<ge> length s \<or> nth_opt s p3 \<noteq> Some CHR ''(''
                then blocks_loop s p3 out
                else
                  let bodyStart = p3 + 1;
                      p4 = bodyStart + scan_body (drop bodyStart s) 1 False False;
                      bodyEnd = p4 - 1;
                      body = slice s bodyStart bodyEnd
                  in blocks_loop s p4 (out @ [(name, body)]))
      else out)"
  by pat_completeness auto
termination
proof (relation "measure (\<lambda>(s, i, out). length s - i)", goal_cases)
  case 1
  then show ?case by simp
next
  case (2 s i out idx p0 p1 x rawName p2 name p3)
  then have "i \<le> idx" by (auto dest: indexOf_ge)
  moreover have "idx < p0" using 2 by simp
  moreover have "p0 \<le> p2" using 2 skip_while_ge[of p0 is_space s]
      skip_while_ge[of "p1 + 1" "\<lambda>c. c \<noteq> dq" s] skip_while_ge[of p1 is_name_char s]
    by (auto simp: Let_def split: if_splits)
  moreover have "p2 \<le> p3" using 2 skip_while_ge by simp
  ultimately have "i < p3" by linarith
  moreover have "i < length s" using 2 by simp
  ultimately show ?case by simp
next
  case (3 s i out idx p0 p1 x rawName p2 name p3 bodyStart p4 bodyEnd body)
  then have "i \<le> idx" by (auto dest: indexOf_ge)
  moreover have "idx < p0" using 3 by simp
  moreover have "p0 \<le> p2" using 3 skip_while_ge[of p0 is_space s]
      skip_while_ge[of "p1 + 1" "\<lambda>c. c \<noteq> dq" s] skip_while_ge[of p1 is_name_char s]
    by (auto simp: Let_def split: if_splits)
  moreover have "p2 \<le> p3" using 3 skip_while_ge by simp
  ultimately have "i < p3" by linarith
  moreover have "p3 < p4" using 3 by simp
  moreover have "i < length s" using 3 by simp
  ultimately show ?case by simp
qed

declare blocks_loop.simps [simp del]

definition parseCreateTableBlocks :: "string \<Rightarrow> (string \<times> string) list" where
  "parseCreateTableBlocks sql = blocks_loop sql 0 []"


subsection \<open>parseEnumTypes\<close>

text \<open>\<^verbatim>\<open>/create\s+type\s+("?[\w.]+"?)\s+as\s+enum\s*\(([\s\S]*?)\)\s*;?/gi\<close>\<close>

definition enumRe :: re where
  "enumRe = seqs [str ''create'', ws1, str ''type'', ws1, Grp 1 qname, ws1, str ''as'', ws1,
                  str ''enum'', ws0, Lit CHR ''('', Grp 2 (Star False anych), Lit CHR '')'', ws0,
                  Opt (Lit CHR '';'')]"

text \<open>\<^verbatim>\<open>/'((?:''|[^'])*)'/g\<close> and \<^verbatim>\<open>/''/g\<close>\<close>

definition valRe :: re where
  "valRe = seqs [Lit sq, Grp 1 (Star True (Alt (str [sq, sq]) (Cls True [CChar sq]))), Lit sq]"

definition enum_of_match :: "rmatch \<Rightarrow> SqlEnum option" where
  "enum_of_match m = do {
     g1 \<leftarrow> m_caps m 1;
     body \<leftarrow> m_caps m 2;
     vms \<leftarrow> rx_exec_all fl_none valRe body 0 [];
     vals \<leftarrow> those (map (\<lambda>vm. map_option (replace_all fl_none (str [sq, sq]) [sq]) (m_caps vm 1)) vms);
     Some \<lparr> e_name = normalizeTableName g1, e_values = vals \<rparr>
   }"

definition parseEnumTypes :: "string \<Rightarrow> SqlEnum list option" where
  "parseEnumTypes sql = do {
     ms \<leftarrow> rx_exec_all fl_i enumRe sql 0 [];
     those (map enum_of_match ms)
   }"

subsection \<open>parseSqlToGraph\<close>

text \<open>
  \<^verbatim>\<open>/create\s+(unique\s+)?index\s+("?[^"\s;]+"?)\s+on\s+("?[\w.]+"?)\s*(?:using\s+(\w+)\s*)?\(([\s\S]*?)\)\s*(?:include\s*\(([\s\S]*?)\)\s*)?(?:where\s*\(([\s\S]*?)\)\s*)?;?/gi\<close>
\<close>

definition indexRe :: re where
  "indexRe = seqs [str ''create'', ws1, Opt (Grp 1 (Seq (str ''unique'') ws1)), str ''index'', ws1,
                   Grp 2 (seqs [oq, Plus True (Cls True [CChar dq, CSpace, CChar CHR '';'']), oq]), ws1,
                   str ''on'', ws1, Grp 3 qname, ws0,
                   Opt (seqs [str ''using'', ws1, Grp 4 word1, ws0]),
                   Lit CHR ''('', Grp 5 (Star False anych), Lit CHR '')'', ws0,
                   Opt (seqs [str ''include'', ws0, Lit CHR ''('', Grp 6 (Star False anych), Lit CHR '')'', ws0]),
                   Opt (seqs [str ''where'', ws0, Lit CHR ''('', Grp 7 (Star False anych), Lit CHR '')'', ws0]),
                   Opt (Lit CHR '';'')]"

definition nonempty_opt :: "string option \<Rightarrow> string option" where
  "nonempty_opt v = (case v of None \<Rightarrow> None | Some x \<Rightarrow> if x = [] then None else Some x)"

definition index_of_match :: "rmatch \<Rightarrow> SqlIndex option" where
  "index_of_match im = do {
     g2 \<leftarrow> m_caps im 2;
     g3 \<leftarrow> m_caps im 3;
     g5 \<leftarrow> m_caps im 5;
     Some \<lparr> i_name = unquoteIdent g2,
            i_table = normalizeTableName g3,
            i_unique = (nonempty_opt (m_caps im 1) \<noteq> None),
            i_method = map_option toLowerCase (m_caps im 4),
            i_expression = normalizeWs g5,
            i_include = map_option normalizeWs (nonempty_opt (m_caps im 6)),
            i_where = map_option normalizeWs (nonempty_opt (m_caps im 7)) \<rparr>
   }"

text \<open>
  \<^verbatim>\<open>/(?:constraint\s+"?[^"\s]+"?\s+)?foreign\s+key\s*\(\s*"?([\w]+)"?\s*\)\s+references\s+("?[\w.]+"?)\s*(?:\(\s*"?([\w]+)"?\s*\))?/i\<close>
\<close>

definition tableFkRe :: re where
  "tableFkRe = seqs [Opt (seqs [str ''constraint'', ws1, oq, Plus True (Cls True [CChar dq, CSpace]), oq, ws1]),
                     str ''foreign'', ws1, str ''key'', ws0, Lit CHR ''('', ws0, oq, Grp 1 word1, oq, ws0,
                     Lit CHR '')'', ws1, str ''references'', ws1, Grp 2 qname, ws0,
                     Opt (seqs [Lit CHR ''('', ws0, oq, Grp 3 word1, oq, ws0, Lit CHR '')''])]"

text \<open>
  \<^verbatim>\<open>/^"?([\w]+)"?\s+([\s\S]+?)\s+references\s+("?[\w.]+"?)\s*(?:\(\s*"?([\w]+)"?\s*\))?/i\<close>
\<close>

definition colRefRe :: re where
  "colRefRe = seqs [Bol, oq, Grp 1 word1, oq, ws1, Grp 2 (Plus False anych), ws1, str ''references'', ws1,
                    Grp 3 qname, ws0,
                    Opt (seqs [Lit CHR ''('', ws0, oq, Grp 4 word1, oq, ws0, Lit CHR '')''])]"

text \<open>
  \<^verbatim>\<open>/^constraint\b/i\<close>, \<^verbatim>\<open>/\breferences\b/i\<close>, \<^verbatim>\<open>/^primary\s+key\b/i\<close>,
  \<^verbatim>\<open>/^unique\b/i\<close>, \<^verbatim>\<open>/^check\b/i\<close>
\<close>

definition constraintRe :: re where "constraintRe = seqs [Bol, str ''constraint'', WordB]"
definition referencesRe :: re where "referencesRe = seqs [WordB, str ''references'', WordB]"
definition pkeyLineRe :: re where "pkeyLineRe = seqs [Bol, str ''primary'', ws1, str ''key'', WordB]"
definition uniqueRe :: re where "uniqueRe = seqs [Bol, str ''unique'', WordB]"
definition checkRe :: re where "checkRe = seqs [Bol, str ''check'', WordB]"

text \<open>\<^verbatim>\<open>/^"?([\w]+)"?\s+(.+)$/\<close>, \<^verbatim>\<open>/\bprimary\s+key\b/i\<close>, \<^verbatim>\<open>/\bnot\s+null\b/i\<close>\<close>

definition columnRe :: re where
  "columnRe = seqs [Bol, oq, Grp 1 word1, oq, ws1, Grp 2 (Plus True Dot), Eol]"

definition pkRe :: re where "pkRe = seqs [WordB, str ''primary'', ws1, str ''key'', WordB]"
definition notNullRe :: re where "notNullRe = seqs [WordB, str ''not'', ws1, str ''null'', WordB]"

text \<open>
  \<^verbatim>\<open>/^\s*([a-zA-Z_]+)(\s+with\s+time\s+zone|\s+without\s+time\s+zone|\s+varying)?(\s*\([^\)]*\))?(\[\])?/i\<close>
\<close>

definition typeRe :: re where
  "typeRe = seqs [Bol, ws0,
                  Grp 1 (Plus True (Cls False [CRange CHR ''a'' CHR ''z'', CRange CHR ''A'' CHR ''Z'', CChar CHR ''_''])),
                  Opt (Grp 2 (Alt (seqs [ws1, str ''with'', ws1, str ''time'', ws1, str ''zone''])
                             (Alt (seqs [ws1, str ''without'', ws1, str ''time'', ws1, str ''zone''])
                                  (seqs [ws1, str ''varying''])))),
                  Opt (Grp 3 (seqs [ws0, Lit CHR ''('', Star True (Cls True [CChar CHR '')'']), Lit CHR '')''])),
                  Opt (Grp 4 (str ''[]''))]"

text \<open>\<^verbatim>\<open>/\([^\)]*\)/g\<close> and \<^verbatim>\<open>/_enum$/i\<close>\<close>

definition parenRe :: re where
  "parenRe = seqs [Lit CHR ''('', Star True (Cls True [CChar CHR '')'']), Lit CHR '')'']"

definition enumSuffixRe :: re where "enumSuffixRe = seqs [str ''_enum'', Eol]"

definition relation_id :: "string \<Rightarrow> string \<Rightarrow> string \<Rightarrow> string \<Rightarrow> string" where
  "relation_id ft fc tt tc = ft @ ''.'' @ fc @ ''->'' @ tt @ ''.'' @ tc"

text \<open>
  One pass of the loop over the items of a table body.  The state is the column list
  of the table, the relation list and \<open>pkByTable\<close>.  A capture group that the source
  dereferences without a guard is read with the option monad: \<open>None\<close> is the
  \<^verbatim>\<open>TypeError\<close> the source would raise on \<^verbatim>\<open>undefined\<close>.
\<close>

type_synonym item_state = "SqlColumn list \<times> SqlRelation list \<times> (string \<rightharpoonup> string)"

definition table_fk_item :: "string \<Rightarrow> rmatch \<Rightarrow> item_state \<Rightarrow> item_state option" where
  "table_fk_item tableName fk st = (case st of (cols, rels, pk) \<Rightarrow> do {
     g1 \<leftarrow> m_caps fk 1;
     g2 \<leftarrow> m_caps fk 2;
     let fromCol = unquoteIdent g1;
         toTab = normalizeTableName g2;
         toCol = (case nonempty_opt (m_caps fk 3) of Some g3 \<Rightarrow> unquoteIdent g3 | None \<Rightarrow> []);
         rel = \<lparr> r_id = relation_id tableName fromCol toTab (if toCol \<noteq> [] then toCol else ''?''),
                 fromTable = tableName, fromColumn = fromCol, toTable = toTab, toColumn = toCol \<rparr>
     in Some (cols, rels @ [rel], pk)
   })"

definition column_type :: "string \<Rightarrow> string" where
  "column_type rest =
     (case rx_exec fl_i typeRe rest 0 of
        Some tm \<Rightarrow> if m_text tm \<noteq> [] then normalizeWs (m_text tm)
                   else hd (split_char CHR '' '' (normalizeWs rest))
      | None \<Rightarrow> hd (split_char CHR '' '' (normalizeWs rest)))"

definition column_item ::
  "(string \<Rightarrow> bool) \<Rightarrow> string \<Rightarrow> string \<Rightarrow> rmatch \<Rightarrow> item_state \<Rightarrow> item_state option" where
  "column_item enumSet tableName line m st = (case st of (cols, rels, pk) \<Rightarrow> do {
     g1 \<leftarrow> m_caps m 1;
     rest \<leftarrow> m_caps m 2;
     let colName = unquoteIdent g1;
         isPk = rx_test fl_i pkRe rest;
         notNull = (isPk \<or> rx_test fl_i notNullRe rest);
         type = column_type rest;
         col = \<lparr> c_name = colName, c_type = type, isPrimaryKey = isPk, isNotNull = notNull,
                 isForeignKey = False, fkTo = None, isEnum = False, enumName = None \<rparr>;
         pk1 = (if isPk \<and> pk tableName = None then pk(tableName \<mapsto> colName) else pk)
     in do {
       (col1, rels1) \<leftarrow>
         (case rx_exec fl_i colRefRe line 0 of
            None \<Rightarrow> Some (col, rels)
          | Some r \<Rightarrow> do {
              r1 \<leftarrow> m_caps r 1;
              r3 \<leftarrow> m_caps r 3;
              let fromCol = unquoteIdent r1;
                  toTab = normalizeTableName r3;
                  toCol = map_option unquoteIdent (nonempty_opt (m_caps r 4));
                  rel = \<lparr> r_id = relation_id tableName fromCol toTab
                                   (case toCol of Some c \<Rightarrow> c | None \<Rightarrow> ''?''),
                          fromTable = tableName, fromColumn = fromCol, toTable = toTab,
                          toColumn = (case toCol of Some c \<Rightarrow> c | None \<Rightarrow> []) \<rparr>
              in Some (col\<lparr> isForeignKey := True, fkTo := Some (toTab, toCol) \<rparr>, rels @ [rel])
            });
       let base = baseTypeOf (replace_all fl_none parenRe [] type);
           ename = normalizeTableName base;
           col2 = (if enumSet ename \<or> rx_test fl_i enumSuffixRe ename
                   then col1\<lparr> isEnum := True, enumName := Some ename \<rparr> else col1)
       in Some (cols @ [col2], rels1, pk1)
     }
   })"

definition process_item ::
  "(string \<Rightarrow> bool) \<Rightarrow> string \<Rightarrow> string \<Rightarrow> item_state \<Rightarrow> item_state option" where
  "process_item enumSet tableName item st =
     (let line = normalizeWs item in
      case rx_exec fl_i tableFkRe line 0 of
        Some fk \<Rightarrow> table_fk_item tableName fk st
      | None \<Rightarrow>
          if rx_test fl_i constraintRe line \<and> \<not> rx_test fl_i referencesRe line then Some st
          else if rx_test fl_i pkeyLineRe line then Some st
          else if rx_test fl_i uniqueRe line then Some st
          else if rx_test fl_i checkRe line then Some st
          else (case rx_exec fl_none columnRe line 0 of
                  None \<Rightarrow> Some st
                | Some m \<Rightarrow> column_item enumSet tableName line m st))"

fun fold_option :: "('a \<Rightarrow> 's \<Rightarrow> 's option) \<Rightarrow> 'a list \<Rightarrow> 's \<Rightarrow> 's option" where
  "fold_option f [] s = Some s"
| "fold_option f (x # xs) s = (case f x s of None \<Rightarrow> None | Some s' \<Rightarrow> fold_option f xs s')"

text \<open>
  The state of the loop over the table blocks.  \<open>tableByName\<close> maps a name to the
  table object last stored under it; the object is shared with the \<open>tables\<close> array,
  so it is modelled by the index of that table in \<open>tables\<close>.
\<close>

record pstate =
  ps_tables :: "SqlTable list"
  ps_relations :: "SqlRelation list"
  tableByName :: "string \<rightharpoonup> nat"
  pkByTable :: "string \<rightharpoonup> string"

definition process_block :: "(string \<Rightarrow> bool) \<Rightarrow> string \<times> string \<Rightarrow> pstate \<Rightarrow> pstate option" where
  "process_block enumSet blk ps = (case blk of (tableName, body) \<Rightarrow> do {
     (cols, rels, pk) \<leftarrow> fold_option (process_item enumSet tableName) (splitTopLevelComma body)
                          ([], ps_relations ps, pkByTable ps);
     Some \<lparr> ps_tables = ps_tables ps @ [\<lparr> t_name = tableName, columns = cols, indexes = [] \<rparr>],
            ps_relations = rels,
            tableByName = (tableByName ps)(tableName \<mapsto> length (ps_tables ps)),
            pkByTable = pk \<rparr>
   })"

definition attach_index :: "(string \<rightharpoonup> nat) \<Rightarrow> SqlIndex \<Rightarrow> SqlTable list \<Rightarrow> SqlTable list" where
  "attach_index tbn idx ts =
     (case tbn (i_table idx) of
        None \<Rightarrow> ts
      | Some k \<Rightarrow> ts[k := (ts ! k)\<lparr> indexes := indexes (ts ! k) @ [idx] \<rparr>])"

definition resolve_relation :: "(string \<rightharpoonup> string) \<Rightarrow> SqlRelation \<Rightarrow> SqlRelation" where
  "resolve_relation pk r =
     (let toCol = (if toColumn r \<noteq> [] then toColumn r
                   else (case pk (toTable r) of Some c \<Rightarrow> c | None \<Rightarrow> ''id''))
      in r\<lparr> toColumn := toCol,
            r_id := relation_id (fromTable r) (fromColumn r) (toTable r) toCol \<rparr>)"

fun find_index :: "('a \<Rightarrow> bool) \<Rightarrow> 'a list \<Rightarrow> nat option" where
  "find_index P [] = None"
| "find_index P (x # xs) = (if P x then Some 0 else map_option Suc (find_index P xs))"

definition mark_fk :: "(string \<rightharpoonup> nat) \<Rightarrow> SqlRelation \<Rightarrow> SqlTable list \<Rightarrow> SqlTable list" where
  "mark_fk tbn rel ts =
     (case tbn (fromTable rel) of
        None \<Rightarrow> ts
      | Some k \<Rightarrow>
          (case find_index (\<lambda>x. c_name x = fromColumn rel) (columns (ts ! k)) of
             None \<Rightarrow> ts
           | Some j \<Rightarrow>
               ts[k := (ts ! k)\<lparr> columns := (columns (ts ! k))
                    [j := (columns (ts ! k) ! j)\<lparr> isForeignKey := True,
                            fkTo := Some (toTable rel, Some (toColumn rel)) \<rparr>] \<rparr>]))"

text \<open>The relation list before resolution, with the tables and the two maps.\<close>

definition collect :: "string \<Rightarrow> (SqlEnum list \<times> SqlIndex list \<times> pstate) option" where
  "collect sql = do {
     let cleaned = stripComments sql;
     es \<leftarrow> parseEnumTypes cleaned;
     ims \<leftarrow> rx_exec_all fl_i indexRe cleaned 0 [];
     allIndexes \<leftarrow> those (map index_of_match ims);
     ps \<leftarrow> fold_option (process_block (\<lambda>n. n \<in> set (map e_name es)))
             (parseCreateTableBlocks cleaned)
             \<lparr> ps_tables = [], ps_relations = [], tableByName = Map.empty, pkByTable = Map.empty \<rparr>;
     Some (es, allIndexes, ps)
   }"

definition resolvedRelations :: "pstate \<Rightarrow> SqlRelation list" where
  "resolvedRelations ps =
     filter (\<lambda>r. tableByName ps (fromTable r) \<noteq> None \<and> tableByName ps (toTable r) \<noteq> None)
       (map (resolve_relation (pkByTable ps)) (ps_relations ps))"

definition parseSqlToGraph :: "string \<Rightarrow> SqlGraph option" where
  "parseSqlToGraph sql = do {
     (es, allIndexes, ps) \<leftarrow> collect sql;
     let ts1 = fold (attach_index (tableByName ps)) allIndexes (ps_tables ps);
         rels = resolvedRelations ps;
         ts2 = fold (mark_fk (tableByName ps)) rels ts1
     in Some \<lparr> tables = ts2, relations = rels, enums = es \<rparr>
   }"

subsection \<open>Predicates of the statements about the extractor\<close>

text \<open>
  Two syntactic properties of a regular expression.  \<open>nonnull r\<close>: every match of
  \<open>r\<close> consumes a character.  \<open>sets_group k r\<close>: every match of \<open>r\<close> sets capture
  group \<open>k\<close>.  Both are sufficient conditions, proved below.
\<close>

fun nonnull :: "re \<Rightarrow> bool" where
  "nonnull (Lit a) = True"
| "nonnull Dot = True"
| "nonnull (Cls neg items) = True"
| "nonnull (Seq a b) = (nonnull a \<or> nonnull b)"
| "nonnull (Alt a b) = (nonnull a \<and> nonnull b)"
| "nonnull (Grp n r) = nonnull r"
| "nonnull _ = False"

fun sets_group :: "nat \<Rightarrow> re \<Rightarrow> bool" where
  "sets_group k (Grp n r) = (n = k \<or> sets_group k r)"
| "sets_group k (Seq a b) = ((sets_group k a \<and> k \<notin> set (groups b)) \<or> sets_group k b)"
| "sets_group k (Alt a b) = (sets_group k a \<and> sets_group k b)"
| "sets_group k _ = False"

text \<open>
  \<open>cols_ok P ts\<close>: every column of every table satisfies \<open>P\<close>.  \<open>table_names\<close>: the
  names of the tables.  \<open>first_pk ts n\<close>: the name of the first column flagged primary
  key among the tables named \<open>n\<close>, in the order of the table list; \<open>pk_or_id\<close> is that
  name, or the literal \<open>id\<close>.  \<open>pk_view\<close> keeps of a table what \<open>first_pk\<close> reads.
\<close>

definition cols_ok :: "(SqlColumn \<Rightarrow> bool) \<Rightarrow> SqlTable list \<Rightarrow> bool" where
  "cols_ok P ts \<longleftrightarrow> (\<forall>t\<in>set ts. \<forall>c\<in>set (columns t). P c)"

definition pk_not_null :: "SqlColumn \<Rightarrow> bool" where
  "pk_not_null c \<longleftrightarrow> (isPrimaryKey c \<longrightarrow> isNotNull c)"

definition table_names :: "SqlTable list \<Rightarrow> string set" where
  "table_names ts = set (map t_name ts)"



definition pk_view :: "SqlTable \<Rightarrow> string \<times> (string \<times> bool) list" where
  "pk_view t = (t_name t, map (\<lambda>c. (c_name c, isPrimaryKey c)) (columns t))"

subsection \<open>The example texts\<close>

text \<open>
  The texts on which the extractor is evaluated below, and the graphs it returns for
  two of them.  \<open>enum_sql\<close> is \<^verbatim>\<open>CREATE TYPE t AS ENUM('a''b','c')\<close>, its quotes
  written \<open>sq\<close>.
\<close>

definition end_to_end_sql :: string where
  "end_to_end_sql =
     ''create table a(id bigint primary key); create table b(id bigint primary key, a_id bigint references a(id));''"



definition unclosed_table_sql :: string where
  "unclosed_table_sql = ''create table t (id int''"

definition end_to_end_graph :: SqlGraph where
  "end_to_end_graph =
     \<lparr> tables =
         [\<lparr> t_name = ''a'',
            columns = [\<lparr> c_name = ''id'', c_type = ''bigint'', isPrimaryKey = True, isNotNull = True,
                         isForeignKey = False, fkTo = None, isEnum = False, enumName = None \<rparr>],
            indexes = [] \<rparr>,
          \<lparr> t_name = ''b'',
            columns = [\<lparr> c_name = ''id'', c_type = ''bigint'', isPrimaryKey = True, isNotNull = True,
                         isForeignKey = False, fkTo = None, isEnum = False, enumName = None \<rparr>,
                       \<lparr> c_name = ''a_id'', c_type = ''bigint'', isPrimaryKey = False, isNotNull = False,
                         isForeignKey = True, fkTo = Some (''a'', Some ''id''), isEnum = False,
                         enumName = None \<rparr>],
            indexes = [] \<rparr>],
       relations = [\<lparr> r_id = ''b.a_id->a.id'', fromTable = ''b'', fromColumn = ''a_id'',
                      toTable = ''a'', toColumn = ''id'' \<rparr>],
       enums = [] \<rparr>"



text \<open>
  A table whose column references a table that the text does not create.  The column
  keeps the flag and the target that the column clause gave it; the relation is dropped.
\<close>

definition dangling_sql :: string where
  "dangling_sql = ''create table b(x int references zz)''"

definition dangling_graph :: SqlGraph where
  "dangling_graph =
     \<lparr> tables =
         [\<lparr> t_name = ''b'',
            columns = [\<lparr> c_name = ''x'', c_type = ''int'', isPrimaryKey = False, isNotNull = False,
                         isForeignKey = True, fkTo = Some (''zz'', None), isEnum = False,
                         enumName = None \<rparr>],
            indexes = [] \<rparr>],
       relations = [],
       enums = [] \<rparr>"

section \<open>Properties of the router\<close>

subsection \<open>The search returns\<close>

text \<open>
  Along every parent link the recorded cost strictly decreases, so the chain of
  parent links from any cell is finite.
\<close>

lemma chain_inv_relax:
  assumes "chain_inv st"
  shows "chain_inv (relax b obstacles g current st nb)"
proof (cases "\<not> inBounds b nb \<or> isBlocked (fst nb) (snd nb) obstacles
              \<or> \<not> lt_inf (map_option Suc (gScore st current)) (gScore st nb)")
  case True
  then show ?thesis using assms by (auto simp: relax_def Let_def)
next
  case False
  then have upd: "lt_inf (map_option Suc (gScore st current)) (gScore st nb)" by simp
  then obtain gc where gc: "gScore st current = Some gc"
    by (cases "gScore st current") (auto simp: lt_inf_def)
  from upd gc have lower: "\<And>n. gScore st nb = Some n \<Longrightarrow> Suc gc < n"
    by (auto simp: lt_inf_def)
  from lower gc have ne: "current \<noteq> nb" by auto
  have cf: "cameFrom (relax b obstacles g current st nb) = (cameFrom st)(nb \<mapsto> current)"
    and gs: "gScore (relax b obstacles g current st nb) = (gScore st)(nb \<mapsto> Suc gc)"
    using False gc by (simp_all add: relax_def Let_def)
  show ?thesis
    unfolding chain_inv_def cf gs
  proof (intro allI impI)
    fix k p
    assume h: "((cameFrom st)(nb \<mapsto> current)) k = Some p"
    show "\<exists>m n. ((gScore st)(nb \<mapsto> Suc gc)) p = Some m \<and>
                 ((gScore st)(nb \<mapsto> Suc gc)) k = Some n \<and> m < n"
    proof (cases "k = nb")
      case True
      with h have "p = current" by simp
      with True ne gc show ?thesis by simp
    next
      case kn: False
      with h have "cameFrom st k = Some p" by simp
      with assms obtain m n where mn: "gScore st p = Some m" "gScore st k = Some n" "m < n"
        unfolding chain_inv_def by blast
      show ?thesis
      proof (cases "p = nb")
        case True
        with mn lower have "Suc gc < m" by simp
        with True kn mn show ?thesis by simp
      next
        case False
        with kn mn show ?thesis by simp
      qed
    qed
  qed
qed

lemma chain_inv_fold_relax:
  "chain_inv st \<Longrightarrow> chain_inv (fold (\<lambda>nb s. relax b obstacles g current s nb) nbs st)"
  by (induction nbs arbitrary: st) (simp_all add: chain_inv_relax)

lemma chain_inv_upd [simp]:
  "chain_inv (st\<lparr>iters := i\<rparr>) = chain_inv st"
  "chain_inv (st\<lparr>openl := l\<rparr>) = chain_inv st"
  by (simp_all add: chain_inv_def)

lemma astar_loop_stop:
  assumes "\<not> (openl st \<noteq> [] \<and> iters st < ROUTE_MAX_ITERS)"
  shows "astar_loop b obstacles step g st = (st, None)"
  by (subst astar_loop.simps) (simp only: assms if_False)

lemma chain_inv_astar_loop:
  "chain_inv st \<Longrightarrow> chain_inv (fst (astar_loop b obstacles step g st))"
proof (induction b obstacles step g st rule: astar_loop.induct)
  case (1 b obstacles step g st)
  show ?case
  proof (cases "openl st \<noteq> [] \<and> iters st < ROUTE_MAX_ITERS")
    case False
    then have "astar_loop b obstacles step g st = (st, None)" by (rule astar_loop_stop)
    then show ?thesis using "1.prems" by simp
  next
    case True
    define st1 where "st1 = st\<lparr>iters := iters st + 1\<rparr>"
    define idx where "idx = bestIndex st1"
    define current where "current = openl st1 ! idx"
    define st2 where "st2 = st1\<lparr>openl := take idx (openl st1) @ drop (Suc idx) (openl st1)\<rparr>"
    have inv2: "chain_inv st2" using "1.prems" by (simp add: st2_def st1_def)
    show ?thesis
    proof (cases "current = g")
      case cg: True
      have "astar_loop b obstacles step g st = (st2, Some current)"
        using True cg
        by (subst astar_loop.simps) (simp add: Let_def st1_def idx_def current_def st2_def)
      then show ?thesis using inv2 by simp
    next
      case cg: False
      have eq: "astar_loop b obstacles step g st =
                astar_loop b obstacles step g
                  (fold (\<lambda>nb s. relax b obstacles g current s nb) (neighbors step current) st2)"
        using True cg
        by (subst astar_loop.simps) (simp add: Let_def st1_def idx_def current_def st2_def)
      have "chain_inv (fst (astar_loop b obstacles step g
                  (fold (\<lambda>nb s. relax b obstacles g current s nb) (neighbors step current) st2)))"
        using "1.IH"[OF True st1_def idx_def current_def st2_def cg]
              chain_inv_fold_relax[OF inv2] by blast
      then show ?thesis by (simp add: eq)
    qed
  qed
qed

lemma backtrack_returns:
  assumes "\<forall>k p. cf k = Some p \<longrightarrow> (\<exists>m n. gs p = Some m \<and> gs k = Some n \<and> (m::nat) < n)"
  shows "\<exists>r. backtrack cf k path = Some r"
proof (induction "case gs k of None \<Rightarrow> 0 | Some n \<Rightarrow> n" arbitrary: k path rule: less_induct)
  case less
  show ?case
  proof (cases "cf k")
    case None
    then show ?thesis by (subst backtrack.simps) simp
  next
    case (Some p)
    with assms obtain m n where mn: "gs p = Some m" "gs k = Some n" "m < n" by blast
    then have "(case gs p of None \<Rightarrow> 0 | Some n \<Rightarrow> n) < (case gs k of None \<Rightarrow> 0 | Some n \<Rightarrow> n)"
      by simp
    from less[OF this] obtain r where "backtrack cf p (path @ [p]) = Some r" by blast
    with Some show ?thesis by (subst backtrack.simps) simp
  qed
qed

lemma iters_astar_loop:
  "iters st \<le> ROUTE_MAX_ITERS \<Longrightarrow> iters (fst (astar_loop b obstacles step g st)) \<le> ROUTE_MAX_ITERS"
proof (induction b obstacles step g st rule: astar_loop.induct)
  case (1 b obstacles step g st)
  show ?case
  proof (cases "openl st \<noteq> [] \<and> iters st < ROUTE_MAX_ITERS")
    case False
    then have "astar_loop b obstacles step g st = (st, None)" by (rule astar_loop_stop)
    then show ?thesis using "1.prems" by simp
  next
    case True
    define st1 where "st1 = st\<lparr>iters := iters st + 1\<rparr>"
    define idx where "idx = bestIndex st1"
    define current where "current = openl st1 ! idx"
    define st2 where "st2 = st1\<lparr>openl := take idx (openl st1) @ drop (Suc idx) (openl st1)\<rparr>"
    have it2: "iters st2 \<le> ROUTE_MAX_ITERS" using True by (simp add: st2_def st1_def)
    show ?thesis
    proof (cases "current = g")
      case cg: True
      have "astar_loop b obstacles step g st = (st2, Some current)"
        using True cg
        by (subst astar_loop.simps) (simp add: Let_def st1_def idx_def current_def st2_def)
      then show ?thesis using it2 by simp
    next
      case cg: False
      have eq: "astar_loop b obstacles step g st =
                astar_loop b obstacles step g
                  (fold (\<lambda>nb s. relax b obstacles g current s nb) (neighbors step current) st2)"
        using True cg
        by (subst astar_loop.simps) (simp add: Let_def st1_def idx_def current_def st2_def)
      show ?thesis
        using "1.IH"[OF True st1_def idx_def current_def st2_def cg] it2 by (simp add: eq)
    qed
  qed
qed

lemma chain_inv_init: "chain_inv (astar_init s g)"
  by (simp add: chain_inv_def astar_init_def)

subsection \<open>The cells between which the search runs\<close>

text \<open>
  What \<^verbatim>\<open>nudgeOut\<close> returns for a blocked cell: the first candidate that is in
  bounds and free, or the cell itself.
\<close>

lemma nudgeOut_cases:
  assumes "isBlocked (fst c) (snd c) obstacles"
  shows "(\<exists>i<6. nudgeOut b obstacles step c = nudge_candidates step c ! i
                \<and> nudge_ok b obstacles (nudge_candidates step c ! i)
                \<and> (\<forall>j<i. \<not> nudge_ok b obstacles (nudge_candidates step c ! j))
                \<and> \<not> isBlocked (fst (nudgeOut b obstacles step c))
                                (snd (nudgeOut b obstacles step c)) obstacles)
       \<or> ((\<forall>i<6. \<not> nudge_ok b obstacles (nudge_candidates step c ! i))
           \<and> nudgeOut b obstacles step c = c)"
proof (cases "find (nudge_ok b obstacles) (nudge_candidates step c)")
  case None
  then have "\<forall>k\<in>set (nudge_candidates step c). \<not> nudge_ok b obstacles k"
    by (auto simp: find_None_iff)
  moreover have "length (nudge_candidates step c) = 6"
    by (simp add: nudge_candidates_def)
  ultimately have "\<forall>i<6. \<not> nudge_ok b obstacles (nudge_candidates step c ! i)"
    by (metis nth_mem)
  moreover have "nudgeOut b obstacles step c = c"
    using None assms by (simp add: nudgeOut_def nudge_ok_def[abs_def])
  ultimately show ?thesis by blast
next
  case (Some k)
  have len: "length (nudge_candidates step c) = 6"
    by (simp add: nudge_candidates_def)
  from Some obtain i where "i < length (nudge_candidates step c)"
      "nudge_ok b obstacles (nudge_candidates step c ! i)"
      "k = nudge_candidates step c ! i"
      "\<forall>j<i. \<not> nudge_ok b obstacles (nudge_candidates step c ! j)"
    unfolding find_Some_iff by blast
  with len have i: "i < 6" "nudge_ok b obstacles (nudge_candidates step c ! i)"
      "k = nudge_candidates step c ! i"
      "\<forall>j<i. \<not> nudge_ok b obstacles (nudge_candidates step c ! j)"
    by simp_all
  have "nudgeOut b obstacles step c = k"
    using Some assms by (simp add: nudgeOut_def nudge_ok_def[abs_def])
  with i show ?thesis by (auto simp: nudge_ok_def)
qed

lemma nudgeOut_nudged: "nudged b obstacles step c (nudgeOut b obstacles step c)"
proof (cases "isBlocked (fst c) (snd c) obstacles")
  case False
  then show ?thesis by (simp add: nudged_def nudgeOut_def)
next
  case blk: True
  define r where "r = nudgeOut b obstacles step c"
  define ok where "ok = (\<lambda>i. nudge_ok b obstacles (nudge_candidates step c ! i))"
  from nudgeOut_cases[OF blk, of b step]
  have cases: "(\<exists>i<6. r = nudge_candidates step c ! i \<and> ok i \<and> (\<forall>j<i. \<not> ok j)
                   \<and> \<not> isBlocked (fst r) (snd r) obstacles)
               \<or> ((\<forall>i<6. \<not> ok i) \<and> r = c)"
    unfolding r_def ok_def .
  have first: "r = nudge_candidates step c ! i \<and> \<not> isBlocked (fst r) (snd r) obstacles"
    if "i < 6" "ok i" "\<forall>j<i. \<not> ok j" for i
  proof -
    from cases that(1,2) obtain i' where i': "i' < 6" "r = nudge_candidates step c ! i'" "ok i'"
        "\<forall>j<i'. \<not> ok j" "\<not> isBlocked (fst r) (snd r) obstacles"
      by blast
    have "i' = i"
    proof (rule ccontr)
      assume "i' \<noteq> i"
      then consider "i' < i" | "i < i'" by linarith
      then show False using that(2,3) i'(3,4) by cases blast+
    qed
    with i' show ?thesis by simp
  qed
  have none: "r = c" if "\<forall>i<6. \<not> ok i"
    using cases that by blast
  show ?thesis
    unfolding nudged_def r_def[symmetric]
    using blk first none unfolding ok_def by blast
qed

lemma nudged_first:
  assumes "nudged b obstacles step c r" "isBlocked (fst c) (snd c) obstacles" "i < 6"
    and "nudge_ok b obstacles (nudge_candidates step c ! i)"
    and "\<forall>j<i. \<not> nudge_ok b obstacles (nudge_candidates step c ! j)"
  shows "r = nudge_candidates step c ! i \<and> \<not> isBlocked (fst r) (snd r) obstacles"
  using assms unfolding nudged_def by blast

lemma nudged_none:
  assumes "nudged b obstacles step c r" "isBlocked (fst c) (snd c) obstacles"
    and "\<forall>i<6. \<not> nudge_ok b obstacles (nudge_candidates step c ! i)"
  shows "r = c"
  using assms unfolding nudged_def by blast

text \<open>
  \<^verbatim>\<open>bestIndex\<close> returns an index of the open list, so the cell taken from it has
  a cost; the parent links from any cell with a cost end at the start cell.
\<close>

lemma bestIndex_loop_bound:
  "best < i + length cs \<Longrightarrow> bestIndex_loop fs cs i best bestF < i + length cs"
proof (induction cs arbitrary: i best bestF)
  case Nil
  then show ?case by simp
next
  case (Cons c cs)
  show ?case
  proof (cases "lt_inf (fs c) bestF")
    case True
    have "bestIndex_loop fs cs (Suc i) i (fs c) < Suc i + length cs"
      by (rule Cons.IH) simp
    with True show ?thesis by simp
  next
    case False
    have "bestIndex_loop fs cs (Suc i) best bestF < Suc i + length cs"
      by (rule Cons.IH) (use Cons.prems in simp)
    with False show ?thesis by simp
  qed
qed

lemma bestIndex_bound: "openl st \<noteq> [] \<Longrightarrow> bestIndex st < length (openl st)"
  using bestIndex_loop_bound[of 0 0 "openl st" "fScore st" None] by (simp add: bestIndex_def)

lemma root_inv_relax:
  assumes "root_inv s st"
  shows "root_inv s (relax b obstacles g current st nb)"
proof (cases "\<not> inBounds b nb \<or> isBlocked (fst nb) (snd nb) obstacles
              \<or> \<not> lt_inf (map_option Suc (gScore st current)) (gScore st nb)")
  case True
  then show ?thesis using assms by (auto simp: relax_def Let_def)
next
  case False
  then have upd: "lt_inf (map_option Suc (gScore st current)) (gScore st nb)" by simp
  then obtain gc where gc: "gScore st current = Some gc"
    by (cases "gScore st current") (auto simp: lt_inf_def)
  from upd gc assms have ne: "nb \<noteq> s"
    by (auto simp: lt_inf_def root_inv_def)
  have cf: "cameFrom (relax b obstacles g current st nb) = (cameFrom st)(nb \<mapsto> current)"
    and gs: "gScore (relax b obstacles g current st nb) = (gScore st)(nb \<mapsto> Suc gc)"
    and ol: "set (openl (relax b obstacles g current st nb)) \<subseteq> insert nb (set (openl st))"
    using False gc by (auto simp: relax_def Let_def)
  from assms have a: "gScore st s = Some 0" "cameFrom st s = None"
      "\<And>k. gScore st k \<noteq> None \<Longrightarrow> k = s \<or> cameFrom st k \<noteq> None"
      "\<And>c. c \<in> set (openl st) \<Longrightarrow> gScore st c \<noteq> None"
    unfolding root_inv_def by blast+
  show ?thesis
    unfolding root_inv_def cf gs
  proof (intro conjI allI impI ballI)
    show "((gScore st)(nb \<mapsto> Suc gc)) s = Some 0" using a(1) ne by simp
    show "((cameFrom st)(nb \<mapsto> current)) s = None" using a(2) ne by simp
  next
    fix k assume "((gScore st)(nb \<mapsto> Suc gc)) k \<noteq> None"
    then show "k = s \<or> ((cameFrom st)(nb \<mapsto> current)) k \<noteq> None"
      using a(3)[of k] by (cases "k = nb") simp_all
  next
    fix c assume "c \<in> set (openl (relax b obstacles g current st nb))"
    with ol have "c = nb \<or> c \<in> set (openl st)" by auto
    then show "((gScore st)(nb \<mapsto> Suc gc)) c \<noteq> None"
      using a(4)[of c] by (cases "c = nb") simp_all
  qed
qed

lemma root_inv_fold_relax:
  "root_inv s st \<Longrightarrow> root_inv s (fold (\<lambda>nb s. relax b obstacles g current s nb) nbs st)"
  by (induction nbs arbitrary: st) (simp_all add: root_inv_relax)

lemma root_inv_init: "root_inv s (astar_init s g)"
  by (simp add: root_inv_def astar_init_def)

lemma root_inv_astar_loop:
  "root_inv s st \<Longrightarrow>
   root_inv s (fst (astar_loop b obstacles step g st))
   \<and> (\<forall>cur. snd (astar_loop b obstacles step g st) = Some cur \<longrightarrow>
         cur = g \<and> gScore (fst (astar_loop b obstacles step g st)) cur \<noteq> None)"
proof (induction b obstacles step g st rule: astar_loop.induct)
  case (1 b obstacles step g st)
  show ?case
  proof (cases "openl st \<noteq> [] \<and> iters st < ROUTE_MAX_ITERS")
    case False
    then have "astar_loop b obstacles step g st = (st, None)" by (rule astar_loop_stop)
    then show ?thesis using "1.prems" by simp
  next
    case True
    define st1 where "st1 = st\<lparr>iters := iters st + 1\<rparr>"
    define idx where "idx = bestIndex st1"
    define current where "current = openl st1 ! idx"
    define st2 where "st2 = st1\<lparr>openl := take idx (openl st1) @ drop (Suc idx) (openl st1)\<rparr>"
    have "idx < length (openl st1)"
      unfolding idx_def using True by (intro bestIndex_bound) (simp add: st1_def)
    then have cur: "current \<in> set (openl st)" by (simp add: current_def st1_def)
    have sub: "set (openl st2) \<subseteq> set (openl st)"
      by (auto simp: st2_def st1_def dest: in_set_takeD in_set_dropD)
    have inv2: "root_inv s st2"
      using "1.prems" sub by (auto simp: root_inv_def st2_def st1_def)
    have gcur: "gScore st2 current \<noteq> None"
      using "1.prems" cur by (auto simp: root_inv_def st2_def st1_def)
    show ?thesis
    proof (cases "current = g")
      case cg: True
      have "astar_loop b obstacles step g st = (st2, Some current)"
        using True cg
        by (subst astar_loop.simps) (simp add: Let_def st1_def idx_def current_def st2_def)
      then show ?thesis using inv2 gcur cg by simp
    next
      case cg: False
      have eq: "astar_loop b obstacles step g st =
                astar_loop b obstacles step g
                  (fold (\<lambda>nb s. relax b obstacles g current s nb) (neighbors step current) st2)"
        using True cg
        by (subst astar_loop.simps) (simp add: Let_def st1_def idx_def current_def st2_def)
      show ?thesis
        unfolding eq
        using "1.IH"[OF True st1_def idx_def current_def st2_def cg] root_inv_fold_relax[OF inv2]
        by blast
    qed
  qed
qed

lemma backtrack_last:
  assumes "backtrack cf k path = Some r"
    and "\<forall>k p. cf k = Some p \<longrightarrow> gs p \<noteq> None"
    and "\<forall>k. gs k \<noteq> None \<longrightarrow> k = s \<or> cf k \<noteq> None"
    and "gs k \<noteq> (None :: nat option)" "path \<noteq> []" "last path = k"
  shows "last r = s"
proof -
  define P where "P = (\<lambda>(cf :: point \<rightharpoonup> point) k (path :: point list) r.
        (\<forall>k p. cf k = Some p \<longrightarrow> gs p \<noteq> None) \<longrightarrow>
        (\<forall>k. gs k \<noteq> None \<longrightarrow> k = s \<or> cf k \<noteq> None) \<longrightarrow>
        gs k \<noteq> None \<longrightarrow> path \<noteq> [] \<longrightarrow> last path = k \<longrightarrow> last r = s)"
  have "P cf k path r"
  proof (rule backtrack.raw_induct[where P = P, OF _ assms(1)])
    fix bt and cf :: "point \<rightharpoonup> point" and k path r
    assume IH: "\<And>cf k path r. bt cf k path = Some r \<Longrightarrow> P cf k path r"
      and unf: "(case cf k of None \<Rightarrow> Some path | Some prev \<Rightarrow> bt cf prev (path @ [prev])) = Some r"
    show "P cf k path r"
    proof (cases "cf k")
      case None
      with unf have "r = path" by simp
      with None show ?thesis unfolding P_def by metis
    next
      case (Some prev)
      with unf have "bt cf prev (path @ [prev]) = Some r" by simp
      from IH[OF this] have "P cf prev (path @ [prev]) r" .
      with Some show ?thesis unfolding P_def by (metis last_snoc snoc_eq_iff_butlast)
    qed
  qed
  with assms(2-) show ?thesis by (simp add: P_def)
qed

subsection \<open>Segments without a diagonal\<close>

lemma aligned_sym: "aligned p q \<Longrightarrow> aligned q p"
  by (auto simp: aligned_def)

lemma collinear_aligned: "collinear p o' q \<Longrightarrow> aligned p q"
  by (auto simp: collinear_def aligned_def)

lemma successively_snoc:
  "successively P (xs @ [q]) \<longleftrightarrow> successively P xs \<and> (xs = [] \<or> P (last xs) q)"
  by (auto simp: successively_append_iff)

lemma successively_butlast: "successively P xs \<Longrightarrow> successively P (butlast xs)"
  by (cases xs rule: rev_cases) (auto simp: successively_append_iff)

lemma successively_tl: "successively P xs \<Longrightarrow> successively P (tl xs)"
  by (cases xs) (auto simp: successively_Cons)

lemma last_butlast_nth: "2 \<le> length xs \<Longrightarrow> last (butlast xs) = xs ! (length xs - 2)"
  by (cases xs rule: rev_cases; simp)
     (metis One_nat_def Suc_1 Suc_le_eq diff_Suc_1 diff_less last_conv_nth length_greater_0_conv
        lessI less_numeral_extra(1) nth_append zero_less_diff)

text \<open>compress_loop keeps a list free of diagonal segments free of them.\<close>

lemma compress_loop_no_diag:
  assumes "out \<noteq> []" "successively aligned out" "successively aligned (last out # rest)"
  shows "successively aligned (compress_loop out rest)"
  using assms
proof (induction rest arbitrary: out)
  case Nil
  then show ?case by simp
next
  case (Cons q rest)
  from Cons.prems(3) have tailok: "successively aligned (q # rest)" and lq: "aligned (last out) q"
    by (auto simp: successively_Cons)
  show ?case
  proof (cases "q = last out")
    case True
    with Cons.IH[OF Cons.prems(1,2)] tailok show ?thesis by simp
  next
    case ne: False
    show ?thesis
    proof (cases "length out \<ge> 2 \<and> collinear (out ! (length out - 2)) (last out) q")
      case True
      then have al: "aligned (last (butlast out)) q"
        using collinear_aligned last_butlast_nth by metis
      from True have bne: "butlast out \<noteq> []" by (cases out rule: rev_cases) auto
      have "successively aligned (butlast out @ [q])"
        using Cons.prems(2) al by (simp add: successively_snoc successively_butlast)
      moreover have "successively aligned (last (butlast out @ [q]) # rest)"
        using tailok by simp
      ultimately have "successively aligned (compress_loop (butlast out @ [q]) rest)"
        by (intro Cons.IH) simp_all
      with ne True show ?thesis by simp
    next
      case False
      have "successively aligned (out @ [q])"
        using Cons.prems(2) lq by (simp add: successively_snoc)
      moreover have "successively aligned (last (out @ [q]) # rest)"
        using tailok by simp
      ultimately have "successively aligned (compress_loop (out @ [q]) rest)"
        by (intro Cons.IH) simp_all
      with ne False show ?thesis by auto
    qed
  qed
qed

lemma compressOrthogonal_no_diag:
  assumes "successively aligned pts"
  shows "successively aligned (compressOrthogonal pts)"
proof (cases "length pts \<le> 2")
  case True
  with assms show ?thesis by (simp add: compressOrthogonal_def)
next
  case False
  then obtain s rest where pts: "pts = s # rest" by (cases pts) auto
  with assms have "successively aligned (compress_loop [s] rest)"
    by (intro compress_loop_no_diag) simp_all
  with False pts show ?thesis by (simp add: compressOrthogonal_def)
qed

text \<open>
  The same for the inner segments: if only the first and the last segment of the
  input may be diagonal, the same holds of the output.
\<close>

lemma compress_loop_inner:
  assumes "out \<noteq> []" "successively aligned (tl out @ butlast rest)"
  shows "successively aligned (tl (butlast (compress_loop out rest)))"
  using assms
proof (induction rest arbitrary: out)
  case Nil
  then have "successively aligned (butlast (tl out))" by (simp add: successively_butlast)
  then show ?case by (simp add: butlast_tl)
next
  case (Cons q rest)
  obtain s out' where out: "out = s # out'" using Cons.prems(1) by (cases out) auto
  show ?case
  proof (cases "rest = []")
    case True
    with Cons.prems(2) out have t: "successively aligned out'" by simp
    have "successively aligned (tl (butlast out))"
      using t out by (cases out' rule: rev_cases) (auto simp: successively_append_iff)
    moreover have "length out \<ge> 2 \<Longrightarrow> successively aligned (tl (butlast (butlast out @ [q])))"
      using t out by (cases out' rule: rev_cases) (auto simp: successively_append_iff)
    moreover have "successively aligned (tl (butlast (out @ [q])))"
      using t out by simp
    ultimately show ?thesis using True by simp
  next
    case rne: False
    then have bl: "butlast (q # rest) = q # butlast rest" by simp
    from Cons.prems(2) out bl have h: "successively aligned (out' @ q # butlast rest)" by simp
    show ?thesis
    proof (cases "q = last out")
      case True
      have "successively aligned (tl out @ butlast rest)"
      proof (cases out' rule: rev_cases)
        case Nil
        with h out show ?thesis by (auto simp: successively_Cons)
      next
        case (snoc ys y)
        with True out have "y = q" by simp
        with h snoc out show ?thesis
          by (auto simp: successively_append_iff successively_Cons)
      qed
      from Cons.IH[OF Cons.prems(1) this] True show ?thesis by simp
    next
      case ne: False
      show ?thesis
      proof (cases "length out \<ge> 2 \<and> collinear (out ! (length out - 2)) (last out) q")
        case True
        then obtain ys y where o': "out' = ys @ [y]"
          using out by (cases out' rule: rev_cases) auto
        have bo: "tl (butlast out @ [q]) = ys @ [q]" using o' out by simp
        have "successively aligned ((ys @ [q]) @ butlast rest)"
        proof (cases ys rule: rev_cases)
          case Nil
          with h o' show ?thesis by (auto simp: successively_Cons)
        next
          case (snoc zs z)
          with o' out have "out ! (length out - 2) = z"
            by (simp add: nth_append)
          with True have "aligned z q" using collinear_aligned by blast
          with h o' snoc show ?thesis
            by (auto simp: successively_append_iff successively_Cons)
        qed
        then have "successively aligned (tl (butlast out @ [q]) @ butlast rest)"
          by (simp only: bo)
        then have "successively aligned (tl (butlast (compress_loop (butlast out @ [q]) rest)))"
          by (intro Cons.IH) simp_all
        with ne True show ?thesis by simp
      next
        case False
        have "successively aligned (tl (out @ [q]) @ butlast rest)"
          using h out by simp
        then have "successively aligned (tl (butlast (compress_loop (out @ [q]) rest)))"
          by (intro Cons.IH) simp_all
        with ne False show ?thesis by auto
      qed
    qed
  qed
qed

lemma compressOrthogonal_inner:
  assumes "successively aligned (tl (butlast pts))"
  shows "successively aligned (tl (butlast (compressOrthogonal pts)))"
proof (cases "length pts \<le> 2")
  case True
  with assms show ?thesis by (simp add: compressOrthogonal_def)
next
  case False
  then obtain s rest where pts: "pts = s # rest" by (cases pts) auto
  with False have "rest \<noteq> []" by auto
  with assms pts have "successively aligned (tl [s] @ butlast rest)" by simp
  then have "successively aligned (tl (butlast (compress_loop [s] rest)))"
    by (intro compress_loop_inner) simp_all
  with False pts show ?thesis by (simp add: compressOrthogonal_def)
qed

lemma corner_after_start_aligned:
  assumes "4 \<le> length pts" "successively aligned (tl (butlast pts))"
  shows "successively aligned (butlast (corner_after_start pts))"
    and "length pts \<le> length (corner_after_start pts)"
proof -
  from assms(1) obtain s n rest where pts: "pts = s # n # rest"
    by (cases pts; cases "tl pts") auto
  with assms(1) have rest: "rest \<noteq> []" by auto
  from assms(2) pts rest have inner: "successively aligned (n # butlast rest)" by simp
  show "successively aligned (butlast (corner_after_start pts))"
    using inner rest pts
    by (auto simp: corner_after_start_def Let_def successively_Cons aligned_def)
  show "length pts \<le> length (corner_after_start pts)"
    using pts by (simp add: corner_after_start_def Let_def)
qed

lemma corner_before_end_aligned:
  assumes "2 \<le> length out" "successively aligned (butlast out)"
  shows "successively aligned (corner_before_end out)"
proof -
  from assms(1) obtain pre p e where out: "out = pre @ [p, e]"
    by (cases out rule: rev_cases; cases "butlast out" rule: rev_cases) auto
  then have n: "out ! (length out - 1) = e" "out ! (length out - 2) = p"
    by (simp_all add: nth_append)
  from assms(2) out have pre: "successively aligned (pre @ [p])" by (simp add: butlast_append)
  have bl: "butlast out = pre @ [p]" using out by (simp add: butlast_append)
  show ?thesis
  proof (cases "fst e \<noteq> fst p \<and> snd e \<noteq> snd p")
    case True
    then have "corner_before_end out = (pre @ [p]) @ [(fst p, snd e), e]"
      using n bl by (simp add: corner_before_end_def Let_def)
    moreover have "successively aligned ((pre @ [p]) @ [(fst p, snd e), e])"
      using pre by (simp add: successively_append_iff aligned_def)
    ultimately show ?thesis by simp
  next
    case False
    then have "aligned p e" by (auto simp: aligned_def)
    moreover have "corner_before_end out = (pre @ [p]) @ [e]"
      using False n out by (auto simp: corner_before_end_def Let_def)
    ultimately show ?thesis using pre by (simp add: successively_append_iff)
  qed
qed

lemma enforceRightAngleEndpoints_no_diag:
  assumes "4 \<le> length pts" "successively aligned (tl (butlast pts))"
  shows "successively aligned (enforceRightAngleEndpoints pts)"
proof -
  have "successively aligned (corner_before_end (corner_after_start pts))"
    using corner_after_start_aligned[OF assms] assms(1)
    by (intro corner_before_end_aligned) simp_all
  then show ?thesis
    using assms(1) by (simp add: enforceRightAngleEndpoints_def compressOrthogonal_no_diag)
qed

lemma exact_endpoints_inner:
  "tl (butlast (exact_endpoints s e pts)) = tl (butlast pts)"
proof (cases pts rule: rev_cases)
  case Nil
  then show ?thesis by (simp add: exact_endpoints_def)
next
  case (snoc ys y)
  then show ?thesis
    by (cases ys) (simp_all add: exact_endpoints_def list_update_append)
qed

lemma adj_inv_relax:
  assumes "adj_inv st" "aligned current nb"
  shows "adj_inv (relax b obstacles g current st nb)"
  using assms by (auto simp: adj_inv_def relax_def Let_def)

lemma adj_inv_fold_relax:
  "adj_inv st \<Longrightarrow> \<forall>nb\<in>set nbs. aligned current nb \<Longrightarrow>
   adj_inv (fold (\<lambda>nb s. relax b obstacles g current s nb) nbs st)"
  by (induction nbs arbitrary: st) (simp_all add: adj_inv_relax)

lemma neighbors_aligned: "\<forall>nb\<in>set (neighbors step current). aligned current nb"
  by (simp add: neighbors_def aligned_def)

lemma adj_inv_upd [simp]:
  "adj_inv (st\<lparr>iters := i\<rparr>) = adj_inv st"
  "adj_inv (st\<lparr>openl := l\<rparr>) = adj_inv st"
  by (simp_all add: adj_inv_def)

lemma adj_inv_astar_loop:
  "adj_inv st \<Longrightarrow> adj_inv (fst (astar_loop b obstacles step g st))"
proof (induction b obstacles step g st rule: astar_loop.induct)
  case (1 b obstacles step g st)
  show ?case
  proof (cases "openl st \<noteq> [] \<and> iters st < ROUTE_MAX_ITERS")
    case False
    then have "astar_loop b obstacles step g st = (st, None)" by (rule astar_loop_stop)
    then show ?thesis using "1.prems" by simp
  next
    case True
    define st1 where "st1 = st\<lparr>iters := iters st + 1\<rparr>"
    define idx where "idx = bestIndex st1"
    define current where "current = openl st1 ! idx"
    define st2 where "st2 = st1\<lparr>openl := take idx (openl st1) @ drop (Suc idx) (openl st1)\<rparr>"
    have inv2: "adj_inv st2" using "1.prems" by (simp add: st2_def st1_def)
    show ?thesis
    proof (cases "current = g")
      case cg: True
      have "astar_loop b obstacles step g st = (st2, Some current)"
        using True cg
        by (subst astar_loop.simps) (simp add: Let_def st1_def idx_def current_def st2_def)
      then show ?thesis using inv2 by simp
    next
      case cg: False
      have eq: "astar_loop b obstacles step g st =
                astar_loop b obstacles step g
                  (fold (\<lambda>nb s. relax b obstacles g current s nb) (neighbors step current) st2)"
        using True cg
        by (subst astar_loop.simps) (simp add: Let_def st1_def idx_def current_def st2_def)
      have "adj_inv (fst (astar_loop b obstacles step g
                  (fold (\<lambda>nb s. relax b obstacles g current s nb) (neighbors step current) st2)))"
        using "1.IH"[OF True st1_def idx_def current_def st2_def cg]
              adj_inv_fold_relax[OF inv2 neighbors_aligned] by blast
      then show ?thesis by (simp add: eq)
    qed
  qed
qed

lemma adj_inv_init: "adj_inv (astar_init s g)"
  by (simp add: adj_inv_def astar_init_def)

lemma backtrack_aligned:
  assumes "backtrack cf k path = Some r"
    and "\<forall>k p. cf k = Some p \<longrightarrow> aligned p k"
    and "path \<noteq> []" "last path = k" "successively aligned path"
  shows "successively aligned r"
proof -
  define P where "P = (\<lambda>(cf :: point \<rightharpoonup> point) k path r.
        (\<forall>k p. cf k = Some p \<longrightarrow> aligned p k) \<longrightarrow> path \<noteq> [] \<longrightarrow> last path = k \<longrightarrow>
        successively aligned path \<longrightarrow> successively aligned r)"
  have "P cf k path r"
  proof (rule backtrack.raw_induct[where P = P, OF _ assms(1)])
    fix bt and cf :: "point \<rightharpoonup> point" and k path r
    assume IH: "\<And>cf k path r. bt cf k path = Some r \<Longrightarrow> P cf k path r"
      and unf: "(case cf k of None \<Rightarrow> Some path | Some prev \<Rightarrow> bt cf prev (path @ [prev])) = Some r"
    show "P cf k path r"
    proof (cases "cf k")
      case None
      with unf show ?thesis by (simp add: P_def)
    next
      case (Some prev)
      with unf have "bt cf prev (path @ [prev]) = Some r" by simp
      from IH[OF this] have step: "P cf prev (path @ [prev]) r" .
      show ?thesis
        unfolding P_def
      proof (intro impI)
        assume cfa: "\<forall>k p. cf k = Some p \<longrightarrow> aligned p k"
          and pne: "path \<noteq> []" and lp: "last path = k" and sp: "successively aligned path"
        from cfa Some have "aligned prev k" by blast
        then have "aligned (last path) prev" using lp by (simp add: aligned_sym)
        with sp pne have "successively aligned (path @ [prev])" by (simp add: successively_snoc)
        with step cfa show "successively aligned r" by (simp add: P_def)
      qed
    qed
  qed
  with assms show ?thesis by (simp add: P_def)
qed

subsection \<open>Evaluation of routes\<close>

lemmas cell_eval =
  route_s_def route_g_def
  search_start_def snap_def routeBounds_def nudgeOut_def nudge_candidates_def isBlocked_def
  pointInRect_def inBounds_def ROUTE_PAD_def Let_def

lemmas loop_eval =
  astar_init_def ROUTE_MAX_ITERS_def bestIndex_def lt_inf_def relax_def neighbors_def
  manhattan_def isBlocked_def pointInRect_def inBounds_def Let_def

lemma fallback_no_diag: "successively aligned (fallback_path s e)"
  unfolding fallback_path_def
  by (rule compressOrthogonal_no_diag) (simp add: aligned_def)

lemma astar_route_inner:
  assumes "routeManhattanAStar s e obstacles step = Some (Some raw)"
  shows "successively aligned (tl (butlast raw))"
proof -
  obtain st res where sr: "route_search s e obstacles step = (st, res)"
    by (cases "route_search s e obstacles step")
  with assms obtain current where res: "res = Some current"
    by (cases res) (auto simp: routeManhattanAStar_def)
  with assms sr obtain path where
    bt: "backtrack (cameFrom st) current [current] = Some path" and
    raw: "raw = compressOrthogonal (exact_endpoints s e (rev path))"
    by (auto simp: routeManhattanAStar_def)
  have "adj_inv (fst (route_search s e obstacles step))"
    unfolding route_search_def Let_def by (rule adj_inv_astar_loop[OF adj_inv_init])
  with sr have "\<forall>k p. cameFrom st k = Some p \<longrightarrow> aligned p k" by (simp add: adj_inv_def)
  from backtrack_aligned[OF bt this] have "successively aligned path" by simp
  then have "successively aligned (rev path)"
    by (simp add: successively_mono[OF _ aligned_sym])
  then have "successively aligned (tl (butlast (rev path)))"
    by (intro successively_tl successively_butlast)
  then show ?thesis
    unfolding raw by (intro compressOrthogonal_inner) (simp add: exact_endpoints_inner)
qed

text \<open>
  A route with at least four points before the right-angle enforcement, and the
  fallback path, have no diagonal segment after it.
\<close>

lemma long_routes_no_diagonal:
  assumes "edge_points start end' obstacles = Some pts"
    and "route_raw start end' obstacles = Some raw"
    and "4 \<le> length raw \<or> routeManhattanAStar start end' obstacles ROUTE_GRID = Some None"
  shows "no_diagonal pts"
proof -
  from assms(1,2) have pts: "pts = enforceRightAngleEndpoints raw"
    by (simp add: edge_points_def)
  obtain r where r: "routeManhattanAStar start end' obstacles ROUTE_GRID = Some r"
    using assms(2) by (auto simp: route_raw_def)
  show ?thesis
  proof (cases r)
    case None
    with r assms(2) have "raw = fallback_path start end'" by (simp add: route_raw_def)
    then have full: "successively aligned raw" by (simp add: fallback_no_diag)
    show ?thesis
    proof (cases "4 \<le> length raw")
      case True
      from full have "successively aligned (tl (butlast raw))"
        by (intro successively_tl successively_butlast)
      with True show ?thesis
        unfolding pts no_diagonal_def by (rule enforceRightAngleEndpoints_no_diag)
    next
      case False
      with full show ?thesis by (simp add: pts no_diagonal_def enforceRightAngleEndpoints_def)
    qed
  next
    case (Some p)
    with r assms(2) have "routeManhattanAStar start end' obstacles ROUTE_GRID = Some (Some raw)"
      by (simp add: route_raw_def)
    then have inner: "successively aligned (tl (butlast raw))" by (rule astar_route_inner)
    from Some r assms(3) have "4 \<le> length raw" by simp
    then show ?thesis
      unfolding pts no_diagonal_def using inner by (rule enforceRightAngleEndpoints_no_diag)
  qed
qed

text \<open>
  Routes between two nodes of 280 by 92, their rectangles inflated by
  \<^verbatim>\<open>ENDPOINT_PAD\<close>: nodes at \<open>(4, 0)\<close> and \<open>(400, 0)\<close>, whose snapped anchors both lie
  inside a rectangle; nodes at \<open>(0, 0)\<close> and \<open>(283, 0)\<close>, three units apart; nodes at
  \<open>(0, 0)\<close> and \<open>(317, 4)\<close>, whose anchors snap to adjacent cells.
\<close>

lemma nudged_nodes_cells:
  "search_start (284,46) 24 = (288, 48)"
  "search_start (400,46) 24 = (408, 48)"
  "routeBounds (288, 48) (408, 48) [AARect 0 (-4) 288 100, AARect 396 (-4) 288 100]
     = Bounds (-260) (-264) 944 356"
  "route_s (284,46) (400,46) [AARect 0 (-4) 288 100, AARect 396 (-4) 288 100] 24 = (312, 48)"
  "route_g (284,46) (400,46) [AARect 0 (-4) 288 100, AARect 396 (-4) 288 100] 24 = (384, 48)"
  by (simp_all add: cell_eval)

lemma nudged_nodes_route:
  "routeManhattanAStar (284,46) (400,46) [AARect 0 (-4) 288 100, AARect 396 (-4) 288 100] 24
     = Some (Some [(284,46),(336,48),(360,48),(400,46)])"
  apply (simp add: routeManhattanAStar_def route_search_def nudged_nodes_cells)
  apply (subst astar_loop.simps)
  apply (simp add: loop_eval)
  apply (subst astar_loop.simps)
  apply (simp add: loop_eval)
  apply (subst astar_loop.simps)
  apply (simp add: loop_eval)
  apply (subst astar_loop.simps)
  apply (simp add: loop_eval)
  apply (subst backtrack.simps, simp)+
  apply (simp add: exact_endpoints_def compressOrthogonal_def collinear_def)
  done

lemma touching_nodes_cells:
  "search_start (280,46) 24 = (288, 48)"
  "search_start (283,46) 24 = (288, 48)"
  "routeBounds (288, 48) (288, 48) [AARect (-4) (-4) 288 100, AARect 279 (-4) 288 100]
     = Bounds (-264) (-264) 827 356"
  "route_s (280,46) (283,46) [AARect (-4) (-4) 288 100, AARect 279 (-4) 288 100] 24 = (288, 48)"
  "route_g (280,46) (283,46) [AARect (-4) (-4) 288 100, AARect 279 (-4) 288 100] 24 = (288, 48)"
  by (simp_all add: cell_eval)

lemma short_route_cells:
  "route_s (280,46) (317,50) [AARect (-4) (-4) 288 100, AARect 313 0 288 100] 24 = (288, 48)"
  "route_g (280,46) (317,50) [AARect (-4) (-4) 288 100, AARect 313 0 288 100] 24 = (312, 48)"
  "routeBounds (search_start (280,46) 24) (search_start (317,50) 24)
     [AARect (-4) (-4) 288 100, AARect 313 0 288 100] = Bounds (-264) (-264) 861 360"
  by (simp_all add: cell_eval)

lemma short_route:
  "routeManhattanAStar (280,46) (317,50) [AARect (-4) (-4) 288 100, AARect 313 0 288 100] 24
     = Some (Some [(280,46), (317,50)])"
  apply (simp add: routeManhattanAStar_def route_search_def short_route_cells)
  apply (subst astar_loop.simps)
  apply (simp add: loop_eval)
  apply (subst astar_loop.simps)
  apply (simp add: loop_eval)
  apply (subst backtrack.simps, simp)+
  apply (simp add: exact_endpoints_def compressOrthogonal_def)
  done

lemma close_nodes_cells:
  "route_s (200,50) (203,50) [AARect (-4) (-4) 208 108, AARect 199 (-4) 208 108] 24 = (192, 48)"
  "route_g (200,50) (203,50) [AARect (-4) (-4) 208 108, AARect 199 (-4) 208 108] 24 = (192, 48)"
  by (simp_all add: cell_eval)

lemma close_nodes_route:
  "routeManhattanAStar (200,50) (203,50) [AARect (-4) (-4) 208 108, AARect 199 (-4) 208 108] 24
     = Some (Some [(203,50)])"
  apply (simp add: routeManhattanAStar_def route_search_def close_nodes_cells Let_def)
  apply (subst astar_loop.simps)
  apply (simp add: loop_eval)
  apply (subst backtrack.simps, simp)
  apply (simp add: exact_endpoints_def compressOrthogonal_def)
  done

subsection \<open>First and last point of a route\<close>

lemma compress_loop_ends:
  "out \<noteq> [] \<Longrightarrow>
   compress_loop out rest \<noteq> [] \<and> hd (compress_loop out rest) = hd out
   \<and> last (compress_loop out rest) = last (out @ rest)"
proof (induction rest arbitrary: out)
  case Nil
  then show ?case by simp
next
  case (Cons q rest)
  show ?case
  proof (cases "q = last out")
    case True
    with Cons.IH[OF Cons.prems] show ?thesis
      by (cases rest) (simp_all add: last_append)
  next
    case ne: False
    show ?thesis
    proof (cases "length out \<ge> 2 \<and> collinear (out ! (length out - 2)) (last out) q")
      case True
      then have "butlast out \<noteq> []" by (cases out rule: rev_cases) auto
      then have h: "hd (butlast out @ [q]) = hd out"
        by (cases out) (auto split: if_splits)
      from Cons.IH[of "butlast out @ [q]"] h ne True show ?thesis
        by (simp add: last_append)
    next
      case False
      from Cons.IH[of "out @ [q]"] Cons.prems ne False show ?thesis
        by (auto simp: last_append)
    qed
  qed
qed

lemma compressOrthogonal_ends:
  "pts \<noteq> [] \<Longrightarrow>
   compressOrthogonal pts \<noteq> [] \<and> hd (compressOrthogonal pts) = hd pts
   \<and> last (compressOrthogonal pts) = last pts"
proof (cases "length pts \<le> 2")
  case True
  then show "pts \<noteq> [] \<Longrightarrow> ?thesis" by (simp add: compressOrthogonal_def)
next
  case False
  assume "pts \<noteq> []"
  then obtain s rest where pts: "pts = s # rest" by (cases pts) auto
  with False have "rest \<noteq> []" by auto
  with compress_loop_ends[of "[s]" rest] pts False show ?thesis
    by (simp add: compressOrthogonal_def)
qed

lemma enforceRightAngleEndpoints_ends:
  assumes "pts \<noteq> []"
  shows "hd (enforceRightAngleEndpoints pts) = hd pts
         \<and> last (enforceRightAngleEndpoints pts) = last pts"
proof (cases "length pts < 4")
  case True
  then show ?thesis by (simp add: enforceRightAngleEndpoints_def)
next
  case False
  then obtain s n rest where pts: "pts = s # n # rest" by (cases pts; cases "tl pts") auto
  with False have rest: "rest \<noteq> []" by auto
  define o1 where "o1 = corner_after_start pts"
  have o1: "o1 \<noteq> []" "hd o1 = s" "last o1 = last pts" "2 \<le> length o1"
    using pts rest by (auto simp: o1_def corner_after_start_def Let_def)
  then obtain pre p e where o1e: "o1 = pre @ [p, e]"
    by (cases o1 rule: rev_cases; cases "butlast o1" rule: rev_cases) auto
  then have n: "o1 ! (length o1 - 1) = e" "o1 ! (length o1 - 2) = p"
    by (simp_all add: nth_append)
  have bl: "butlast o1 = pre @ [p]" using o1e by (simp add: butlast_append)
  have hb: "hd (pre @ [p]) = s" using o1(2) o1e by (cases pre) simp_all
  define o2 where "o2 = corner_before_end o1"
  have "o2 = (pre @ [p]) @ [(fst p, snd e), e] \<or> o2 = o1"
    using n bl by (auto simp: o2_def corner_before_end_def Let_def)
  moreover have "hd ((pre @ [p]) @ [(fst p, snd e), e]) = s"
    using hb by (cases pre) simp_all
  ultimately have o2: "o2 \<noteq> []" "hd o2 = s" "last o2 = last pts"
    using o1 o1e by auto
  from compressOrthogonal_ends[OF o2(1)] o2 pts False show ?thesis
    by (simp add: enforceRightAngleEndpoints_def o2_def o1_def)
qed

lemma fallback_path_ends:
  "hd (fallback_path s e) = s \<and> last (fallback_path s e) = e"
  using compressOrthogonal_ends[of "[s, ((fst s + fst e) / 2, snd s), ((fst s + fst e) / 2, snd e), e]"]
  by (simp add: fallback_path_def)

lemma backtrack_prefix:
  assumes "backtrack cf k path = Some r"
  shows "\<exists>more. r = path @ more"
proof -
  define P where "P = (\<lambda>(cf :: point \<rightharpoonup> point) (k :: point) (path :: point list) r.
                        \<exists>more. r = path @ more)"
  have "P cf k path r"
  proof (rule backtrack.raw_induct[where P = P, OF _ assms])
    fix bt and cf :: "point \<rightharpoonup> point" and k path r
    assume IH: "\<And>cf k path r. bt cf k path = Some r \<Longrightarrow> P cf k path r"
      and unf: "(case cf k of None \<Rightarrow> Some path | Some prev \<Rightarrow> bt cf prev (path @ [prev])) = Some r"
    show "P cf k path r"
    proof (cases "cf k")
      case None
      with unf show ?thesis by (simp add: P_def)
    next
      case (Some prev)
      with unf have "bt cf prev (path @ [prev]) = Some r" by simp
      from IH[OF this] show ?thesis by (auto simp: P_def)
    qed
  qed
  then show ?thesis by (simp add: P_def)
qed

lemma exact_endpoints_ends:
  assumes "2 \<le> length pts"
  shows "hd (exact_endpoints s e pts) = s \<and> last (exact_endpoints s e pts) = e
         \<and> exact_endpoints s e pts \<noteq> []"
proof -
  from assms obtain a mid z where pts: "pts = a # mid @ [z]"
    by (cases pts; cases "tl pts" rule: rev_cases) auto
  have "(pts[0 := s])[length pts - 1 := e] = s # mid @ [e]"
    by (simp add: pts list_update_append)
  then show ?thesis
    by (simp add: exact_endpoints_def)
qed

text \<open>
  The first and the last point of every list returned by the pipeline are the exact
  anchors, except when the search path has a single cell: then the list is the single
  point \<open>end\<close>.
\<close>

lemma edge_points_ends:
  assumes "edge_points start end' obstacles = Some pts"
  shows "(hd pts = start \<and> last pts = end') \<or> pts = [end']"
proof -
  from assms obtain raw where raw: "route_raw start end' obstacles = Some raw"
    and pts: "pts = enforceRightAngleEndpoints raw"
    by (auto simp: edge_points_def)
  from raw obtain r where r: "routeManhattanAStar start end' obstacles ROUTE_GRID = Some r"
    by (auto simp: route_raw_def)
  show ?thesis
  proof (cases r)
    case None
    with r raw have "raw = fallback_path start end'" by (simp add: route_raw_def)
    moreover have "fallback_path start end' \<noteq> []"
      using compressOrthogonal_ends[of "[start, ((fst start + fst end') / 2, snd start),
              ((fst start + fst end') / 2, snd end'), end']"]
      by (simp add: fallback_path_def)
    ultimately show ?thesis
      using enforceRightAngleEndpoints_ends[of raw] fallback_path_ends[of start end'] pts by simp
  next
    case (Some p)
    with r raw have p: "p = raw" by (simp add: route_raw_def)
    obtain st res where sr: "route_search start end' obstacles ROUTE_GRID = (st, res)"
      by (cases "route_search start end' obstacles ROUTE_GRID")
    with r Some p obtain current path where
      bt: "backtrack (cameFrom st) current [current] = Some path" and
      rw: "raw = compressOrthogonal (exact_endpoints start end' (rev path))"
      by (cases res) (auto simp: routeManhattanAStar_def)
    from backtrack_prefix[OF bt] obtain more where path: "path = [current] @ more" by blast
    show ?thesis
    proof (cases more)
      case Nil
      with path rw have "raw = [end']"
        by (simp add: exact_endpoints_def compressOrthogonal_def)
      then show ?thesis by (simp add: pts enforceRightAngleEndpoints_def)
    next
      case (Cons a as)
      with path have "2 \<le> length (rev path)" by simp
      from exact_endpoints_ends[OF this, of start end']
      have "raw \<noteq> [] \<and> hd raw = start \<and> last raw = end'"
        using compressOrthogonal_ends[of "exact_endpoints start end' (rev path)"] rw by simp
      then show ?thesis
        using enforceRightAngleEndpoints_ends[of raw] pts by simp
    qed
  qed
qed


section \<open>Properties of the extractor\<close>

subsection \<open>Characters\<close>

text \<open>
  The order on characters is the order of their codes, and on the ranges where the
  case conversions apply them, \<open>clear_bit5\<close> and \<open>set_bit5\<close> subtract and add 32.
\<close>

lemma in_range_code:
  "in_range lo hi c \<longleftrightarrow> (of_char lo :: nat) \<le> of_char c \<and> (of_char c :: nat) \<le> of_char hi"
  by (simp add: in_range_def less_eq_char_def)

lemma clear_bit5_code:
  "in_range CHR ''a'' CHR ''z'' c \<or> in_range CHR 0xE0 CHR 0xFE c \<Longrightarrow>
   (of_char (clear_bit5 c) :: nat) + 32 = of_char c"
  by (cases c) (auto simp: in_range_def clear_bit5_def lexordp_eq_simps split: if_splits)

lemma set_bit5_code:
  "in_range CHR ''A'' CHR ''Z'' c \<or> in_range CHR 0xC0 CHR 0xDE c \<Longrightarrow>
   (of_char (set_bit5 c) :: nat) = of_char c + 32"
  by (cases c) (auto simp: in_range_def set_bit5_def lexordp_eq_simps split: if_splits)

subsection \<open>Matches of a regular expression\<close>

lemma rest_reset [simp]: "fst (snd (reset r st)) = fst (snd st)"
  by (cases st) (simp add: reset_def)

lemma fst_reset [simp]: "fst (reset r st) = fst st"
  by (cases st) (simp add: reset_def)

lemma rest_set_group [simp]: "fst (snd (set_group n st st')) = fst (snd st')"
  by (cases st') (simp add: set_group_def)

lemma one_char_rest:
  "st' \<in> set (one_char P st) \<Longrightarrow> Suc (length (fst (snd st'))) = length (fst (snd st))"
  by (cases st) (auto simp: one_char_def split: list.splits if_splits)

lemma one_char_suffix:
  "st' \<in> set (one_char P st) \<Longrightarrow> suffix (fst (snd st')) (fst (snd st))"
  by (cases st) (auto simp: one_char_def suffix_Cons split: list.splits if_splits)

lemma one_char_caps:
  "st' \<in> set (one_char P st) \<Longrightarrow> snd (snd st') = snd (snd st)"
  by (cases st) (auto simp: one_char_def split: list.splits if_splits)

lemma ms_suffix:
  "st' \<in> set (ms fl r st) \<Longrightarrow> suffix (fst (snd st')) (fst (snd st))"
proof (induction fl r st arbitrary: st' rule: ms.induct)
  case (8 fl a b st)
  from "8.prems" obtain st1 where s1: "st1 \<in> set (ms fl a st)" and s2: "st' \<in> set (ms fl b st1)"
    by auto
  from "8.IH"(1)[OF s1] "8.IH"(2)[OF s1 s2] show ?case by (rule suffix_order.trans[rotated])
next
  case (12 fl g r st)
  show ?case
  proof (cases "st' = st")
    case True
    then show ?thesis by simp
  next
    case False
    with "12.prems" obtain st1 where
      s1: "st1 \<in> set (filter (progress st) (ms fl r (reset r st)))" and
      s2: "st' \<in> set (ms fl (Star g r) st1)"
      by (auto simp: ms_Star[of fl g r st] Let_def split: if_splits)
    from s1 have s1': "st1 \<in> set (ms fl r (reset r st))" by simp
    from "12.IH"(1)[OF s1'] have "suffix (fst (snd st1)) (fst (snd st))" by simp
    moreover from "12.IH"(2)[OF s1 s2] have "suffix (fst (snd st')) (fst (snd st1))" .
    ultimately show ?thesis by (rule suffix_order.trans[rotated])
  qed
next
  case (9 fl a b st)
  from "9.prems" have "st' \<in> set (ms fl a st) \<or> st' \<in> set (ms fl b st)" by simp
  then show ?case using "9.IH" by blast
next
  case (10 fl n r st)
  from "10.prems" obtain st1 where s1: "st1 \<in> set (ms fl r st)" and e: "st' = set_group n st st1"
    by auto
  from "10.IH"[OF s1] e show ?case by simp
next
  case (11 fl r st)
  from "11.prems" have "st' = st \<or> st' \<in> set (ms fl r (reset r st))" by auto
  then show ?case
  proof
    assume "st' = st" then show ?thesis by simp
  next
    assume "st' \<in> set (ms fl r (reset r st))"
    from "11.IH"[OF this] show ?thesis by simp
  qed
next
  case (1 fl st)
  then show ?case by simp
next
  case (2 fl a st)
  then show ?case by (simp add: one_char_suffix)
next
  case (3 fl st)
  then show ?case by (simp add: one_char_suffix)
next
  case (4 fl neg items st)
  then show ?case by (simp add: one_char_suffix)
next
  case (5 fl st)
  then show ?case by (simp split: if_splits)
next
  case (6 fl st)
  then show ?case by (simp split: if_splits)
next
  case (7 fl st)
  then show ?case by (simp split: if_splits)
qed

lemma ms_length: "st' \<in> set (ms fl r st) \<Longrightarrow> length (fst (snd st')) \<le> length (fst (snd st))"
  by (drule ms_suffix) (rule suffix_length_le)

lemma ms_nonnull:
  "nonnull r \<Longrightarrow> st' \<in> set (ms fl r st) \<Longrightarrow> length (fst (snd st')) < length (fst (snd st))"
proof (induction fl r st arbitrary: st' rule: ms.induct)
  case (8 fl a b st)
  from "8.prems" obtain st1 where s1: "st1 \<in> set (ms fl a st)" and s2: "st' \<in> set (ms fl b st1)"
    by auto
  from "8.prems"(1) consider "nonnull a" | "nonnull b" by auto
  then show ?case
  proof cases
    case 1
    from "8.IH"(1)[OF 1 s1] ms_length[OF s2] show ?thesis by simp
  next
    case 2
    from "8.IH"(2)[OF s1 2 s2] ms_length[OF s1] show ?thesis by simp
  qed
next
  case (2 fl a st)
  from one_char_rest[OF "2.prems"(2)[simplified]] show ?case by simp
next
  case (3 fl st)
  from one_char_rest[OF "3.prems"(2)[simplified]] show ?case by simp
next
  case (4 fl neg items st)
  from one_char_rest[OF "4.prems"(2)[simplified]] show ?case by simp
next
  case (9 fl a b st)
  from "9.prems" have "st' \<in> set (ms fl a st) \<or> st' \<in> set (ms fl b st)"
    and "nonnull a" "nonnull b" by simp_all
  then show ?case using "9.IH" by blast
next
  case (10 fl n r st)
  from "10.prems" obtain st1 where s1: "st1 \<in> set (ms fl r st)" and e: "st' = set_group n st st1"
    by auto
  from "10.prems"(1) have "nonnull r" by simp
  from "10.IH"[OF this s1] e show ?case by simp
qed simp_all

text \<open>Captures outside a regular expression are not touched by a match of it.\<close>

lemma ms_frame:
  "k \<notin> set (groups r) \<Longrightarrow> st' \<in> set (ms fl r st) \<Longrightarrow> snd (snd st') k = snd (snd st) k"
proof (induction fl r st arbitrary: st' rule: ms.induct)
  case (8 fl a b st)
  from "8.prems" obtain st1 where s1: "st1 \<in> set (ms fl a st)" and s2: "st' \<in> set (ms fl b st1)"
    by auto
  from "8.prems"(1) have ka: "k \<notin> set (groups a)" and kb: "k \<notin> set (groups b)" by auto
  from "8.IH"(1)[OF ka s1] "8.IH"(2)[OF s1 kb s2] show ?case by simp
next
  case (10 fl n r st)
  from "10.prems" obtain st1 where s1: "st1 \<in> set (ms fl r st)" and e: "st' = set_group n st st1"
    by auto
  from "10.prems"(1) have kn: "k \<noteq> n" and kr: "k \<notin> set (groups r)" by auto
  from "10.IH"[OF kr s1] e kn show ?case by (cases st1) (simp add: set_group_def)
next
  case (11 fl r st)
  from "11.prems"(1) have kr: "k \<notin> set (groups r)" by simp
  show ?case
  proof (cases "st' = st")
    case True
    then show ?thesis by simp
  next
    case False
    with "11.prems" have s1: "st' \<in> set (ms fl r (reset r st))" by auto
    from "11.IH"[OF kr s1] kr show ?thesis by (cases st) (simp add: reset_def)
  qed
next
  case (12 fl g r st)
  from "12.prems"(1) have kr: "k \<notin> set (groups r)" by simp
  show ?case
  proof (cases "st' = st")
    case True
    then show ?thesis by simp
  next
    case False
    with "12.prems" obtain st1 where
      s1: "st1 \<in> set (filter (progress st) (ms fl r (reset r st)))" and
      s2: "st' \<in> set (ms fl (Star g r) st1)"
      by (auto simp: ms_Star[of fl g r st] Let_def split: if_splits)
    from s1 have s1': "st1 \<in> set (ms fl r (reset r st))" by simp
    from "12.IH"(1)[OF kr s1'] kr have "snd (snd st1) k = snd (snd st) k"
      by (cases st) (simp add: reset_def)
    moreover from "12.IH"(2)[OF s1 _ s2] "12.prems"(1) have "snd (snd st') k = snd (snd st1) k"
      by simp
    ultimately show ?thesis by simp
  qed
next
  case (2 fl a st)
  from one_char_caps[OF "2.prems"(2)[simplified]] show ?case by simp
next
  case (3 fl st)
  from one_char_caps[OF "3.prems"(2)[simplified]] show ?case by simp
next
  case (4 fl neg items st)
  from one_char_caps[OF "4.prems"(2)[simplified]] show ?case by simp
next
  case (9 fl a b st)
  from "9.prems" have "st' \<in> set (ms fl a st) \<or> st' \<in> set (ms fl b st)"
    and "k \<notin> set (groups a)" "k \<notin> set (groups b)" by simp_all
  then show ?case using "9.IH" by blast
next
  case (1 fl st)
  then show ?case by simp
next
  case (5 fl st)
  then show ?case by (simp split: if_splits)
next
  case (6 fl st)
  then show ?case by (simp split: if_splits)
next
  case (7 fl st)
  then show ?case by (simp split: if_splits)
qed

lemma ms_sets_group:
  "sets_group k r \<Longrightarrow> st' \<in> set (ms fl r st) \<Longrightarrow> snd (snd st') k \<noteq> None"
proof (induction fl r st arbitrary: st' rule: ms.induct)
  case (8 fl a b st)
  from "8.prems" obtain st1 where s1: "st1 \<in> set (ms fl a st)" and s2: "st' \<in> set (ms fl b st1)"
    by auto
  from "8.prems"(1) consider "sets_group k a" "k \<notin> set (groups b)" | "sets_group k b" by auto
  then show ?case
  proof cases
    case 1
    from "8.IH"(1)[OF 1(1) s1] ms_frame[OF 1(2) s2] show ?thesis by simp
  next
    case 2
    from "8.IH"(2)[OF s1 2 s2] show ?thesis .
  qed
next
  case (10 fl n r st)
  from "10.prems" obtain st1 where s1: "st1 \<in> set (ms fl r st)" and e: "st' = set_group n st st1"
    by auto
  show ?case
  proof (cases "n = k")
    case True
    with e show ?thesis by (cases st1) (simp add: set_group_def)
  next
    case False
    with "10.prems"(1) have "sets_group k r" by simp
    from "10.IH"[OF this s1] e False show ?thesis by (cases st1) (simp add: set_group_def)
  qed
next
  case (9 fl a b st)
  from "9.prems" have "st' \<in> set (ms fl a st) \<or> st' \<in> set (ms fl b st)"
    and "sets_group k a" "sets_group k b" by simp_all
  then show ?case using "9.IH" by blast
qed simp_all

lemma rx_search_props:
  assumes "rx_search fl r prev s idx = Some m"
  shows "idx \<le> m_index m \<and> m_index m \<le> m_end m \<and> m_end m \<le> idx + length s
         \<and> (nonnull r \<longrightarrow> m_index m < m_end m)
         \<and> (sets_group k r \<longrightarrow> m_caps m k \<noteq> None)"
  using assms
proof (induction s arbitrary: prev idx)
  case Nil
  then obtain st' rest where ms: "ms fl r (prev, [], Map.empty) = st' # rest"
    and m: "m = \<lparr> m_index = idx, m_end = idx, m_text = [], m_caps = snd (snd st') \<rparr>"
    by (auto split: list.splits)
  then have mem: "st' \<in> set (ms fl r (prev, [], Map.empty))" by simp
  have "\<not> nonnull r" using ms_nonnull[OF _ mem] by auto
  moreover have "sets_group k r \<longrightarrow> snd (snd st') k \<noteq> None" using ms_sets_group[OF _ mem] by blast
  ultimately show ?case using m by simp
next
  case (Cons c cs)
  show ?case
  proof (cases "ms fl r (prev, c # cs, Map.empty)")
    case Nil
    with Cons.prems have "rx_search fl r (Some c) cs (Suc idx) = Some m" by simp
    from Cons.IH[OF this] show ?thesis by simp
  next
    case (Cons st' rest)
    then have mem: "st' \<in> set (ms fl r (prev, c # cs, Map.empty))" by simp
    define n where "n = length (c # cs) - length (fst (snd st'))"
    from Cons Cons.prems have m: "m = \<lparr> m_index = idx, m_end = idx + n, m_text = take n (c # cs),
                     m_caps = snd (snd st') \<rparr>"
      by (simp add: n_def Let_def)
    have le: "length (fst (snd st')) \<le> length (c # cs)" using ms_length[OF mem] by simp
    have "nonnull r \<longrightarrow> 0 < n" using ms_nonnull[OF _ mem] by (auto simp: n_def)
    moreover have "sets_group k r \<longrightarrow> snd (snd st') k \<noteq> None"
      using ms_sets_group[OF _ mem] by blast
    moreover have "n \<le> length (c # cs)" by (simp add: n_def)
    ultimately show ?thesis using m by simp
  qed
qed

lemma rx_exec_props:
  assumes "rx_exec fl r s i = Some m"
  shows "i \<le> m_index m \<and> m_index m \<le> m_end m \<and> m_end m \<le> length s
         \<and> (nonnull r \<longrightarrow> m_index m < m_end m)
         \<and> (sets_group k r \<longrightarrow> m_caps m k \<noteq> None)"
proof -
  from assms have i: "i \<le> length s"
    and "rx_search fl r (if i = 0 then None else Some (s ! (i - 1))) (drop i s) i = Some m"
    by (auto simp: rx_exec_def split: if_splits)
  from rx_search_props[OF this(2), of k] i show ?thesis by simp
qed

lemma rx_exec_group:
  "rx_exec fl r s i = Some m \<Longrightarrow> sets_group k r \<Longrightarrow> \<exists>v. m_caps m k = Some v"
  using rx_exec_props[of fl r s i m k] by auto

text \<open>
  The loop \<^verbatim>\<open>while ((m = re.exec(s)))\<close> returns when the regular expression cannot
  match the empty string: every match moves \<^verbatim>\<open>lastIndex\<close> forward.
\<close>

lemma rx_exec_all_returns:
  assumes "nonnull r"
  shows "\<exists>res. rx_exec_all fl r s i acc = Some res"
proof (induction "length s - i" arbitrary: i acc rule: less_induct)
  case less
  show ?case
  proof (cases "rx_exec fl r s i")
    case None
    then show ?thesis by (subst rx_exec_all.simps) simp
  next
    case (Some m)
    from rx_exec_props[OF Some, of undefined] assms
    have "i < m_end m" "m_end m \<le> length s" by auto
    then have "length s - m_end m < length s - i" by simp
    from less[OF this] obtain res where "rx_exec_all fl r s (m_end m) (acc @ [m]) = Some res"
      by blast
    with Some show ?thesis by (subst rx_exec_all.simps) simp
  qed
qed

lemma rx_exec_all_matches:
  assumes "rx_exec_all fl r s i acc = Some res"
  shows "\<forall>m\<in>set res. m \<in> set acc \<or> (\<exists>j. rx_exec fl r s j = Some m)"
proof -
  define P where "P = (\<lambda>(fl :: flags) r s (i :: nat) acc res.
        \<forall>m\<in>set res. m \<in> set acc \<or> (\<exists>j. rx_exec fl r s j = Some m))"
  have "P fl r s i acc res"
  proof (rule rx_exec_all.raw_induct[where P = P, OF _ assms])
    fix ea fl r s i acc res
    assume IH: "\<And>fl r s i acc res. ea fl r s i acc = Some res \<Longrightarrow> P fl r s i acc res"
      and unf: "(case rx_exec fl r s i of None \<Rightarrow> Some acc
                 | Some m \<Rightarrow> ea fl r s (m_end m) (acc @ [m])) = Some res"
    show "P fl r s i acc res"
    proof (cases "rx_exec fl r s i")
      case None
      with unf show ?thesis by (auto simp: P_def)
    next
      case (Some m)
      with unf have "ea fl r s (m_end m) (acc @ [m]) = Some res" by simp
      from IH[OF this] Some show ?thesis by (auto simp: P_def)
    qed
  qed
  then show ?thesis by (simp add: P_def)
qed

lemma rx_exec_all_groups:
  assumes "rx_exec_all fl r s 0 [] = Some res" "m \<in> set res" "sets_group k r"
  shows "\<exists>v. m_caps m k = Some v"
  using rx_exec_all_matches[OF assms(1)] assms(2,3) rx_exec_group by fastforce

lemma those_map_returns:
  "(\<And>x. x \<in> set xs \<Longrightarrow> \<exists>y. f x = Some y) \<Longrightarrow> \<exists>ys. those (map f xs) = Some ys"
proof (induction xs)
  case Nil
  then show ?case by simp
next
  case (Cons x xs)
  then obtain y ys where "f x = Some y" "those (map f xs) = Some ys" by (meson list.set_intros)
  then show ?case by simp
qed

lemma fold_option_returns:
  "(\<And>x s. x \<in> set xs \<Longrightarrow> \<exists>s'. f x s = Some s') \<Longrightarrow> \<exists>s'. fold_option f xs s = Some s'"
proof (induction xs arbitrary: s)
  case Nil
  then show ?case by simp
next
  case (Cons x xs)
  then obtain s1 where "f x s = Some s1" by (meson list.set_intros)
  moreover from Cons obtain s2 where "fold_option f xs s1 = Some s2" by (meson list.set_intros)
  ultimately show ?case by simp
qed

lemmas re_defs =
  ws_def ws1_def ws0_def anych_def word1_def oq_def qname_def Plus_def str_def
  enumRe_def valRe_def indexRe_def tableFkRe_def colRefRe_def columnRe_def

lemma re_nonnull: "nonnull enumRe" "nonnull valRe" "nonnull indexRe"
  by (simp_all add: re_defs)

lemma re_groups:
  "sets_group 1 enumRe" "sets_group 2 enumRe" "sets_group 1 valRe"
  "sets_group 2 indexRe" "sets_group 3 indexRe" "sets_group 5 indexRe"
  "sets_group 1 tableFkRe" "sets_group 2 tableFkRe"
  "sets_group 1 columnRe" "sets_group 2 columnRe"
  "sets_group 1 colRefRe" "sets_group 3 colRefRe"
  by (simp_all add: re_defs)

subsection \<open>The extractor returns\<close>

lemma enum_of_match_returns:
  assumes "\<exists>v. m_caps m 1 = Some v" "\<exists>v. m_caps m 2 = Some v"
  shows "\<exists>e. enum_of_match m = Some e"
proof -
  from assms obtain g1 body where g: "m_caps m 1 = Some g1" "m_caps m 2 = Some body" by blast
  obtain vms where vms: "rx_exec_all fl_none valRe body 0 [] = Some vms"
    using rx_exec_all_returns[OF re_nonnull(2)] by blast
  have "\<exists>vals. those (map (\<lambda>vm. map_option (replace_all fl_none (str [sq, sq]) [sq]) (m_caps vm 1)) vms)
          = Some vals"
  proof (rule those_map_returns)
    fix vm assume "vm \<in> set vms"
    from rx_exec_all_groups[OF vms this re_groups(3)]
    show "\<exists>y. map_option (replace_all fl_none (str [sq, sq]) [sq]) (m_caps vm 1) = Some y"
      by auto
  qed
  then show ?thesis using g vms by (auto simp: enum_of_match_def)
qed

lemma parseEnumTypes_returns: "\<exists>es. parseEnumTypes sql = Some es"
proof -
  obtain ms where ms: "rx_exec_all fl_i enumRe sql 0 [] = Some ms"
    using rx_exec_all_returns[OF re_nonnull(1)] by blast
  have "\<exists>es. those (map enum_of_match ms) = Some es"
  proof (rule those_map_returns)
    fix m assume "m \<in> set ms"
    from rx_exec_all_groups[OF ms this re_groups(1)] rx_exec_all_groups[OF ms this re_groups(2)]
    show "\<exists>e. enum_of_match m = Some e" by (rule enum_of_match_returns)
  qed
  with ms show ?thesis by (simp add: parseEnumTypes_def)
qed

lemma index_of_match_returns:
  assumes "\<exists>v. m_caps m 2 = Some v" "\<exists>v. m_caps m 3 = Some v" "\<exists>v. m_caps m 5 = Some v"
  shows "\<exists>x. index_of_match m = Some x"
  using assms by (auto simp: index_of_match_def)

lemma table_fk_item_returns:
  assumes "rx_exec fl_i tableFkRe line 0 = Some fk"
  shows "\<exists>st'. table_fk_item tableName fk st = Some st'"
proof -
  from rx_exec_group[OF assms re_groups(7)] rx_exec_group[OF assms re_groups(8)]
  obtain g1 g2 where "m_caps fk 1 = Some g1" "m_caps fk 2 = Some g2" by blast
  then show ?thesis by (cases st) (auto simp: table_fk_item_def Let_def)
qed

lemma column_item_returns:
  assumes "rx_exec fl_none columnRe line 0 = Some m"
  shows "\<exists>st'. column_item enumSet tableName line m st = Some st'"
proof -
  from rx_exec_group[OF assms re_groups(9)] rx_exec_group[OF assms re_groups(10)]
  obtain g1 rest where g: "m_caps m 1 = Some g1" "m_caps m 2 = Some rest" by blast
  obtain cols rels pk where st: "st = (cols, rels, pk)" by (cases st)
  show ?thesis
  proof (cases "rx_exec fl_i colRefRe line 0")
    case None
    with g st show ?thesis by (simp add: column_item_def Let_def)
  next
    case (Some r)
    from rx_exec_group[OF Some re_groups(11)] rx_exec_group[OF Some re_groups(12)]
    obtain r1 r3 where "m_caps r 1 = Some r1" "m_caps r 3 = Some r3" by blast
    with Some g st show ?thesis by (simp add: column_item_def Let_def)
  qed
qed

lemma process_item_returns: "\<exists>st'. process_item enumSet tableName item st = Some st'"
proof (cases "rx_exec fl_i tableFkRe (normalizeWs item) 0")
  case (Some fk)
  with table_fk_item_returns[OF Some] show ?thesis by (simp add: process_item_def Let_def)
next
  case None
  show ?thesis
  proof (cases "rx_exec fl_none columnRe (normalizeWs item) 0")
    case n: None
    with None show ?thesis by (cases st) (auto simp: process_item_def Let_def)
  next
    case (Some m)
    with None column_item_returns[OF Some, of enumSet tableName st] show ?thesis
      by (cases st) (auto simp: process_item_def Let_def)
  qed
qed

lemma process_block_returns: "\<exists>ps'. process_block enumSet blk ps = Some ps'"
proof -
  obtain tableName body where blk: "blk = (tableName, body)" by (cases blk)
  obtain st where "fold_option (process_item enumSet tableName) (splitTopLevelComma body)
                          ([], ps_relations ps, pkByTable ps) = Some st"
    using fold_option_returns[of _ "process_item enumSet tableName"] process_item_returns
    by meson
  then show ?thesis using blk by (cases st) (simp add: process_block_def)
qed

lemma collect_returns: "\<exists>c. collect sql = Some c"
proof -
  obtain es where es: "parseEnumTypes (stripComments sql) = Some es"
    using parseEnumTypes_returns by blast
  obtain ims where ims: "rx_exec_all fl_i indexRe (stripComments sql) 0 [] = Some ims"
    using rx_exec_all_returns[OF re_nonnull(3)] by blast
  have "\<exists>xs. those (map index_of_match ims) = Some xs"
  proof (rule those_map_returns)
    fix m assume "m \<in> set ims"
    from rx_exec_all_groups[OF ims this re_groups(4)] rx_exec_all_groups[OF ims this re_groups(5)]
         rx_exec_all_groups[OF ims this re_groups(6)]
    show "\<exists>x. index_of_match m = Some x" by (rule index_of_match_returns)
  qed
  then obtain xs where xs: "those (map index_of_match ims) = Some xs" by blast
  obtain ps where "fold_option (process_block (\<lambda>n. n \<in> set (map e_name es)))
             (parseCreateTableBlocks (stripComments sql))
             \<lparr> ps_tables = [], ps_relations = [], tableByName = Map.empty, pkByTable = Map.empty \<rparr>
           = Some ps"
    using fold_option_returns[of _ "process_block (\<lambda>n. n \<in> set (map e_name es))"]
      process_block_returns by meson
  with es ims xs show ?thesis by (simp add: collect_def Let_def)
qed

lemma parseSqlToGraph_returns: "\<exists>g. parseSqlToGraph sql = Some g"
proof -
  obtain es xs ps where "collect sql = Some (es, xs, ps)"
    using collect_returns[of sql] by (metis prod_cases3)
  then show ?thesis by (simp add: parseSqlToGraph_def Let_def)
qed

subsection \<open>Flags of the columns\<close>

lemma fold_option_invariant:
  assumes "fold_option f xs s = Some s'" "I s"
    and "\<And>x s s'. x \<in> set xs \<Longrightarrow> I s \<Longrightarrow> f x s = Some s' \<Longrightarrow> I s'"
  shows "I s'"
  using assms
proof (induction xs arbitrary: s)
  case Nil
  then show ?case by simp
next
  case (Cons x xs)
  from Cons.prems(1) obtain s1 where s1: "f x s = Some s1" "fold_option f xs s1 = Some s'"
    by (auto split: option.splits)
  have "I s1" using Cons.prems(3)[OF _ Cons.prems(2) s1(1)] by simp
  show ?case
  proof (rule Cons.IH[OF s1(2) \<open>I s1\<close>])
    fix y t t'
    assume "y \<in> set xs" "I t" "f y t = Some t'"
    then show "I t'" using Cons.prems(3)[of y t t'] by simp
  qed
qed

lemma column_item_cols:
  assumes "column_item enumSet tableName line m (cols, rels, pk) = Some (cols', rels', pk')"
  shows "\<exists>c. cols' = cols @ [c] \<and> pk_not_null c"
proof -
  from assms obtain g1 rest where g: "m_caps m 1 = Some g1" "m_caps m 2 = Some rest"
    by (auto simp: column_item_def split: Option.bind_splits)
  show ?thesis
  proof (cases "rx_exec fl_i colRefRe line 0")
    case None
    with assms g show ?thesis
      by (auto simp: column_item_def Let_def pk_not_null_def)
  next
    case (Some r)
    with assms g obtain r1 r3 where "m_caps r 1 = Some r1" "m_caps r 3 = Some r3"
      by (auto simp: column_item_def Let_def split: Option.bind_splits)
    with Some assms g show ?thesis
      by (auto simp: column_item_def Let_def pk_not_null_def)
  qed
qed

lemma table_fk_item_cols:
  assumes "table_fk_item tableName fk (cols, rels, pk) = Some (cols', rels', pk')"
  shows "cols' = cols \<and> pk' = pk"
  using assms by (auto simp: table_fk_item_def Let_def split: Option.bind_splits)

lemma process_item_cols:
  assumes "process_item enumSet tableName item (cols, rels, pk) = Some (cols', rels', pk')"
    and "\<forall>c\<in>set cols. pk_not_null c"
  shows "\<forall>c\<in>set cols'. pk_not_null c"
proof (cases "rx_exec fl_i tableFkRe (normalizeWs item) 0")
  case (Some fk)
  with assms(1) have "table_fk_item tableName fk (cols, rels, pk) = Some (cols', rels', pk')"
    by (simp add: process_item_def Let_def)
  from table_fk_item_cols[OF this] assms(2) show ?thesis by simp
next
  case None
  show ?thesis
  proof (cases "rx_exec fl_none columnRe (normalizeWs item) 0")
    case n: None
    with None assms show ?thesis by (auto simp: process_item_def Let_def split: if_splits)
  next
    case (Some m)
    with None assms(1) consider "cols' = cols"
      | "column_item enumSet tableName (normalizeWs item) m (cols, rels, pk) = Some (cols', rels', pk')"
      by (auto simp: process_item_def Let_def split: if_splits)
    then show ?thesis
    proof cases
      case 1
      with assms(2) show ?thesis by simp
    next
      case 2
      from column_item_cols[OF 2] assms(2) show ?thesis by auto
    qed
  qed
qed

lemma process_block_cols_ok:
  assumes "process_block enumSet blk ps = Some ps'" "cols_ok pk_not_null (ps_tables ps)"
  shows "cols_ok pk_not_null (ps_tables ps')"
proof -
  obtain tableName body where blk: "blk = (tableName, body)" by (cases blk)
  with assms(1) obtain cols rels pk where
    f: "fold_option (process_item enumSet tableName) (splitTopLevelComma body)
          ([], ps_relations ps, pkByTable ps) = Some (cols, rels, pk)"
    and ps': "ps_tables ps' = ps_tables ps @ [\<lparr> t_name = tableName, columns = cols, indexes = [] \<rparr>]"
    by (auto simp: process_block_def split: Option.bind_splits)
  have "\<forall>c\<in>set (fst (cols, rels, pk)). pk_not_null c"
  proof (rule fold_option_invariant[OF f, where I = "\<lambda>st. \<forall>c\<in>set (fst st). pk_not_null c"])
    show "\<forall>c\<in>set (fst ([], ps_relations ps, pkByTable ps)). pk_not_null c" by simp
  next
    fix x s s'
    assume "\<forall>c\<in>set (fst s). pk_not_null c" "process_item enumSet tableName x s = Some s'"
    then show "\<forall>c\<in>set (fst s'). pk_not_null c"
      using process_item_cols[of enumSet tableName x "fst s" "fst (snd s)" "snd (snd s)"
                                 "fst s'" "fst (snd s')" "snd (snd s')"]
      by simp
  qed
  with assms(2) ps' show ?thesis by (auto simp: cols_ok_def)
qed

lemma collect_cols_ok:
  assumes "collect sql = Some (es, xs, ps)"
  shows "cols_ok pk_not_null (ps_tables ps)"
proof -
  from assms have
    f: "fold_option (process_block (\<lambda>n. n \<in> set (map e_name es)))
             (parseCreateTableBlocks (stripComments sql))
             \<lparr> ps_tables = [], ps_relations = [], tableByName = Map.empty, pkByTable = Map.empty \<rparr>
           = Some ps"
    by (auto simp: collect_def Let_def split: Option.bind_splits)
  show ?thesis
  proof (rule fold_option_invariant[OF f, where I = "\<lambda>ps. cols_ok pk_not_null (ps_tables ps)"])
    show "cols_ok pk_not_null (ps_tables \<lparr> ps_tables = [], ps_relations = [],
            tableByName = Map.empty, pkByTable = Map.empty \<rparr>)"
      by (simp add: cols_ok_def)
  qed (rule process_block_cols_ok)
qed

lemma map_update_same: "(map f xs)[k := f (xs ! k)] = map f xs"
  by (metis list_update_id map_update)

lemma attach_index_columns: "map columns (attach_index tbn idx ts) = map columns ts"
  by (simp add: attach_index_def map_update map_update_same split: option.splits)

lemma fold_attach_index_columns: "map columns (fold (attach_index tbn) xs ts) = map columns ts"
  by (induction xs arbitrary: ts) (simp_all add: attach_index_columns)

lemma cols_ok_alt: "cols_ok P ts \<longleftrightarrow> (\<forall>cs\<in>set (map columns ts). \<forall>c\<in>set cs. P c)"
  by (auto simp: cols_ok_def)

lemma cols_ok_map_columns: "map columns ts = map columns ts' \<Longrightarrow> cols_ok P ts = cols_ok P ts'"
  by (simp only: cols_ok_alt)

lemma find_index_Some:
  "find_index P xs = Some j \<Longrightarrow> j < length xs \<and> P (xs ! j) \<and> (\<forall>i<j. \<not> P (xs ! i))"
proof (induction xs arbitrary: j)
  case Nil
  then show ?case by simp
next
  case (Cons x xs)
  show ?case
  proof (cases "P x")
    case True
    with Cons.prems show ?thesis by simp
  next
    case False
    with Cons.prems obtain j' where j': "find_index P xs = Some j'" "j = Suc j'" by auto
    from Cons.IH[OF j'(1)] False j'(2) show ?thesis by (auto simp: less_Suc_eq_0_disj)
  qed
qed

lemma mark_fk_cols_ok:
  assumes "cols_ok P ts" "\<And>c v. P c \<Longrightarrow> P (c\<lparr> isForeignKey := True, fkTo := v \<rparr>)"
  shows "cols_ok P (mark_fk tbn rel ts)"
proof (cases "tbn (fromTable rel)")
  case None
  with assms(1) show ?thesis by (simp add: mark_fk_def)
next
  case (Some k)
  show ?thesis
  proof (cases "find_index (\<lambda>x. c_name x = fromColumn rel) (columns (ts ! k))")
    case None
    with Some assms(1) show ?thesis by (simp add: mark_fk_def)
  next
    case j: (Some j)
    show ?thesis
    proof (cases "k < length ts \<and> j < length (columns (ts ! k))")
      case False
      have "mark_fk tbn rel ts = ts"
      proof (cases "k < length ts")
        case kl: False
        then have "length ts \<le> k" by simp
        then have "\<And>v. ts[k := v] = ts" by (rule list_update_beyond)
        then show ?thesis using Some j by (simp add: mark_fk_def)
      next
        case True
        with False find_index_Some[OF j] show ?thesis by simp
      qed
      with assms(1) show ?thesis by simp
    next
      case True
      then have tk: "ts ! k \<in> set ts" by simp
      with assms(1) have old: "\<forall>c\<in>set (columns (ts ! k)). P c" by (simp add: cols_ok_def)
      with True have "P (columns (ts ! k) ! j)" by simp
      then have new: "P ((columns (ts ! k) ! j)\<lparr> isForeignKey := True,
                            fkTo := Some (toTable rel, Some (toColumn rel)) \<rparr>)"
        by (rule assms(2))
      define t' where "t' = (ts ! k)\<lparr> columns := (columns (ts ! k))
                    [j := (columns (ts ! k) ! j)\<lparr> isForeignKey := True,
                            fkTo := Some (toTable rel, Some (toColumn rel)) \<rparr>] \<rparr>"
      have "\<forall>c\<in>set (columns t'). P c"
      proof
        fix c assume "c \<in> set (columns t')"
        then have "c \<in> insert ((columns (ts ! k) ! j)\<lparr> isForeignKey := True,
                            fkTo := Some (toTable rel, Some (toColumn rel)) \<rparr>) (set (columns (ts ! k)))"
          using set_update_subset_insert by (fastforce simp: t'_def)
        with old new show "P c" by auto
      qed
      moreover have "mark_fk tbn rel ts = ts[k := t']"
        using Some j by (simp add: mark_fk_def t'_def)
      moreover have "set (ts[k := t']) \<subseteq> insert t' (set ts)"
        by (rule set_update_subset_insert)
      ultimately show ?thesis using assms(1) unfolding cols_ok_def by auto
    qed
  qed
qed

lemma fold_mark_fk_cols_ok:
  assumes "cols_ok P ts" "\<And>c v. P c \<Longrightarrow> P (c\<lparr> isForeignKey := True, fkTo := v \<rparr>)"
  shows "cols_ok P (fold (mark_fk tbn) rels ts)"
  using assms(1) by (induction rels arbitrary: ts) (simp_all add: mark_fk_cols_ok assms(2))

subsection \<open>Names and primary keys of the tables\<close>

lemma attach_index_view: "map pk_view (attach_index tbn idx ts) = map pk_view ts"
proof (cases "tbn (i_table idx)")
  case None
  then show ?thesis by (simp add: attach_index_def)
next
  case (Some k)
  have "pk_view ((ts ! k)\<lparr> indexes := indexes (ts ! k) @ [idx] \<rparr>) = pk_view (ts ! k)"
    by (simp add: pk_view_def)
  with Some show ?thesis by (simp add: attach_index_def map_update map_update_same)
qed

lemma mark_fk_view: "map pk_view (mark_fk tbn rel ts) = map pk_view ts"
proof (cases "tbn (fromTable rel)")
  case None
  then show ?thesis by (simp add: mark_fk_def)
next
  case (Some k)
  show ?thesis
  proof (cases "find_index (\<lambda>x. c_name x = fromColumn rel) (columns (ts ! k))")
    case None
    with Some show ?thesis by (simp add: mark_fk_def)
  next
    case j: (Some j)
    define f where "f = (\<lambda>c :: SqlColumn. (c_name c, isPrimaryKey c))"
    have "map f ((columns (ts ! k))[j := (columns (ts ! k) ! j)\<lparr> isForeignKey := True,
                            fkTo := Some (toTable rel, Some (toColumn rel)) \<rparr>])
          = (map f (columns (ts ! k)))[j := f (columns (ts ! k) ! j)]"
      by (simp add: map_update f_def)
    also have "\<dots> = map f (columns (ts ! k))" by (rule map_update_same)
    finally have "pk_view ((ts ! k)\<lparr> columns := (columns (ts ! k))
                    [j := (columns (ts ! k) ! j)\<lparr> isForeignKey := True,
                            fkTo := Some (toTable rel, Some (toColumn rel)) \<rparr>] \<rparr>) = pk_view (ts ! k)"
      by (simp add: pk_view_def f_def)
    with Some j show ?thesis by (simp add: mark_fk_def map_update map_update_same)
  qed
qed

lemma fold_attach_index_view: "map pk_view (fold (attach_index tbn) xs ts) = map pk_view ts"
  by (induction xs arbitrary: ts) (simp_all add: attach_index_view)

lemma fold_mark_fk_view: "map pk_view (fold (mark_fk tbn) rels ts) = map pk_view ts"
  by (induction rels arbitrary: ts) (simp_all add: mark_fk_view)

lemma table_names_view: "table_names ts = fst ` set (map pk_view ts)"
  by (auto simp: table_names_def pk_view_def image_iff)



lemma graph_tables_view:
  assumes "parseSqlToGraph sql = Some g" "collect sql = Some (es, xs, ps)"
  shows "map pk_view (tables g) = map pk_view (ps_tables ps)"
    and "relations g = resolvedRelations ps"
  using assms by (auto simp: parseSqlToGraph_def Let_def fold_mark_fk_view fold_attach_index_view)

lemma process_block_names:
  assumes "process_block enumSet blk ps = Some ps'" "dom (tableByName ps) = table_names (ps_tables ps)"
  shows "dom (tableByName ps') = table_names (ps_tables ps')"
proof -
  obtain tableName body where blk: "blk = (tableName, body)" by (cases blk)
  with assms(1) obtain cols where
    "ps_tables ps' = ps_tables ps @ [\<lparr> t_name = tableName, columns = cols, indexes = [] \<rparr>]"
    "tableByName ps' = (tableByName ps)(tableName \<mapsto> length (ps_tables ps))"
    by (auto simp: process_block_def split: Option.bind_splits)
  with assms(2) show ?thesis by (auto simp: table_names_def)
qed

lemma collect_blocks:
  assumes "collect sql = Some (es, xs, ps)"
  shows "fold_option (process_block (\<lambda>n. n \<in> set (map e_name es)))
             (parseCreateTableBlocks (stripComments sql))
             \<lparr> ps_tables = [], ps_relations = [], tableByName = Map.empty, pkByTable = Map.empty \<rparr>
           = Some ps"
  using assms by (auto simp: collect_def Let_def split: Option.bind_splits)

lemma collect_names:
  assumes "collect sql = Some (es, xs, ps)"
  shows "dom (tableByName ps) = table_names (ps_tables ps)"
proof (rule fold_option_invariant[OF collect_blocks[OF assms],
        where I = "\<lambda>ps. dom (tableByName ps) = table_names (ps_tables ps)"])
  show "dom (tableByName \<lparr> ps_tables = [], ps_relations = [], tableByName = Map.empty,
          pkByTable = Map.empty \<rparr>) = table_names (ps_tables \<lparr> ps_tables = [], ps_relations = [],
          tableByName = Map.empty, pkByTable = Map.empty \<rparr>)"
    by (simp add: table_names_def)
qed (rule process_block_names)

lemma resolve_relation_tables [simp]:
  "fromTable (resolve_relation pk r) = fromTable r"
  "toTable (resolve_relation pk r) = toTable r"
  "fromColumn (resolve_relation pk r) = fromColumn r"
  by (simp_all add: resolve_relation_def Let_def)

subsection \<open>The first primary key\<close>








subsection \<open>Evaluation of the examples\<close>

lemma end_to_end_eval: "parseSqlToGraph end_to_end_sql = Some end_to_end_graph"
  unfolding end_to_end_sql_def end_to_end_graph_def by code_simp




lemma unclosed_table_eval:
  "parseSqlToGraph unclosed_table_sql =
     Some \<lparr> tables = [\<lparr> t_name = ''t'',
                        columns = [\<lparr> c_name = ''id'', c_type = ''in'', isPrimaryKey = False,
                                     isNotNull = False, isForeignKey = False, fkTo = None,
                                     isEnum = False, enumName = None \<rparr>],
                        indexes = [] \<rparr>],
            relations = [], enums = [] \<rparr>"
  unfolding unclosed_table_sql_def by code_simp

lemma no_keyword_eval:
  "indexOf (toLowerCase (stripComments ''select 1;'')) ''create table'' 0 = None"
  "parseSqlToGraph ''select 1;'' = Some \<lparr> tables = [], relations = [], enums = [] \<rparr>"
  by code_simp+

lemma no_blocks:
  assumes "indexOf (toLowerCase s) ''create table'' 0 = None"
  shows "parseCreateTableBlocks s = []"
  unfolding parseCreateTableBlocks_def
  by (subst blocks_loop.simps) (simp add: assms)

lemma dangling_eval: "parseSqlToGraph dangling_sql = Some dangling_graph"
  unfolding dangling_sql_def dangling_graph_def by code_simp

lemma dangling_captures:
  "map_option (\<lambda>(es, xs, ps). ps_relations ps) (collect dangling_sql)
     = Some [\<lparr> r_id = ''b.x->zz.?'', fromTable = ''b'', fromColumn = ''x'',
                toTable = ''zz'', toColumn = [] \<rparr>]"
  unfolding dangling_sql_def by code_simp

section \<open>The claims\<close>

subsection \<open>C1: the end-to-end example\<close>

text \<open>
  Claim C1.  For the input text
  \<^verbatim>\<open>create table a(id bigint primary key); create table b(id bigint primary key, a_id bigint references a(id));\<close>
  the extractor returns a graph with exactly two tables, named \<open>a\<close> and \<open>b\<close> in this
  order, and exactly one relation, whose \<open>fromTable\<close> is \<open>b\<close>, \<open>fromColumn\<close> is
  \<open>a_id\<close>, \<open>toTable\<close> is \<open>a\<close> and \<open>toColumn\<close> is \<open>id\<close>.
\<close>

theorem end_to_end_example:
  "map_option (\<lambda>g. (map t_name (tables g),
                     map (\<lambda>r. (fromTable r, fromColumn r, toTable r, toColumn r)) (relations g)))
     (parseSqlToGraph end_to_end_sql)
   = Some ([''a'', ''b''], [(''b'', ''a_id'', ''a'', ''id'')])"
  by (simp add: end_to_end_eval end_to_end_graph_def)

subsection \<open>C2: relations name extracted tables\<close>

text \<open>
  Claim C2.  For every input text for which the extractor returns a graph \<open>g\<close>, every
  relation of \<open>g\<close> has a \<open>fromTable\<close> and a \<open>toTable\<close> that both name tables of
  \<open>g\<close>; and a captured foreign-key reference (an element of the relation list before
  resolution) whose target table is not among the tables of \<open>g\<close> has no resolved
  relation in the output.
\<close>

theorem relations_name_extracted_tables:
  assumes "parseSqlToGraph sql = Some g"
  shows "(\<forall>r\<in>set (relations g).
            fromTable r \<in> table_names (tables g) \<and> toTable r \<in> table_names (tables g))
       \<and> (\<exists>es xs ps. collect sql = Some (es, xs, ps)
            \<and> (\<forall>r\<in>set (ps_relations ps). toTable r \<notin> table_names (tables g)
                  \<longrightarrow> resolve_relation (pkByTable ps) r \<notin> set (relations g)))"
proof -
  from assms obtain es xs ps where c: "collect sql = Some (es, xs, ps)"
    by (auto simp: parseSqlToGraph_def split: Option.bind_splits)
  note v = graph_tables_view[OF assms c]
  have names: "table_names (tables g) = dom (tableByName ps)"
    using collect_names[OF c] v(1) by (simp add: table_names_view)
  have 1: "\<forall>r\<in>set (relations g).
            fromTable r \<in> table_names (tables g) \<and> toTable r \<in> table_names (tables g)"
    unfolding v(2) names resolvedRelations_def by (auto simp: dom_def)
  have "\<forall>r\<in>set (ps_relations ps). toTable r \<notin> table_names (tables g)
                  \<longrightarrow> resolve_relation (pkByTable ps) r \<notin> set (relations g)"
    using 1 by (metis resolve_relation_tables(2))
  with 1 c show ?thesis by blast
qed

text \<open>
  Witness of C2: the end-to-end example returns a graph with a relation, from table
  \<open>b\<close> to table \<open>a\<close>, both in the table list; and the text
  \<open>create table b(x int references zz)\<close> captures a reference to the table
  \<open>zz\<close>, which is not extracted, and returns a graph without relations.
\<close>

theorem relations_name_extracted_tables_witness:
  "parseSqlToGraph end_to_end_sql = Some end_to_end_graph
   \<and> relations end_to_end_graph \<noteq> []
   \<and> fromTable (hd (relations end_to_end_graph)) \<in> table_names (tables end_to_end_graph)
   \<and> toTable (hd (relations end_to_end_graph)) \<in> table_names (tables end_to_end_graph)
   \<and> parseSqlToGraph dangling_sql = Some dangling_graph
   \<and> map_option (\<lambda>(es, xs, ps). map toTable (ps_relations ps)) (collect dangling_sql) = Some [''zz'']
   \<and> ''zz'' \<notin> table_names (tables dangling_graph)
   \<and> relations dangling_graph = []"
proof -
  from relations_name_extracted_tables[OF end_to_end_eval]
  have "\<forall>r\<in>set (relations end_to_end_graph).
          fromTable r \<in> table_names (tables end_to_end_graph)
          \<and> toTable r \<in> table_names (tables end_to_end_graph)"
    by blast
  moreover have "relations end_to_end_graph \<noteq> []" by (simp add: end_to_end_graph_def)
  ultimately have 1: "fromTable (hd (relations end_to_end_graph)) \<in> table_names (tables end_to_end_graph)
     \<and> toTable (hd (relations end_to_end_graph)) \<in> table_names (tables end_to_end_graph)"
    by simp
  from relations_name_extracted_tables[OF dangling_eval]
  obtain es xs ps where c: "collect dangling_sql = Some (es, xs, ps)"
    and d: "\<forall>r\<in>set (ps_relations ps). toTable r \<notin> table_names (tables dangling_graph)
              \<longrightarrow> resolve_relation (pkByTable ps) r \<notin> set (relations dangling_graph)"
    by blast
  from c dangling_captures
  have raw: "ps_relations ps = [\<lparr> r_id = ''b.x->zz.?'', fromTable = ''b'', fromColumn = ''x'',
                toTable = ''zz'', toColumn = [] \<rparr>]"
    by simp
  have nz: "''zz'' \<notin> table_names (tables dangling_graph)"
    by (simp add: table_names_def dangling_graph_def)
  with d raw have "resolve_relation (pkByTable ps)
          \<lparr> r_id = ''b.x->zz.?'', fromTable = ''b'', fromColumn = ''x'',
            toTable = ''zz'', toColumn = [] \<rparr> \<notin> set (relations dangling_graph)"
    by simp
  moreover have "relations dangling_graph = []" by (simp add: dangling_graph_def)
  ultimately show ?thesis
    using 1 end_to_end_eval dangling_eval c raw nz
    by (simp add: end_to_end_graph_def)
qed

subsection \<open>C3: an omitted target column\<close>



subsection \<open>C4: segments of a routed edge\<close>

text \<open>
  Claim C4 says that every two consecutive points of a list returned by the routing
  pipeline differ in exactly one coordinate.  The source says the same of itself: the
  comment on \<^verbatim>\<open>enforceRightAngleEndpoints\<close> reads "ensures no diagonal at first/last
  segment after we set exact endpoint coordinates", and the comment at the substitution
  of the exact endpoints reads "these may introduce diagonals -> fixed later".  But
  \<^verbatim>\<open>enforceRightAngleEndpoints\<close> returns a list of fewer than four points unchanged
  (\<^verbatim>\<open>if (pts.length < 8) return pts\<close>), so the diagonal that the substitution
  introduces into a route of two cells is never fixed.  Here two nodes of 280 by 92
  stand at \<open>(0, 0)\<close> and \<open>(317, 4)\<close>; the anchors \<open>(280, 46)\<close> and \<open>(317, 50)\<close> snap to
  the adjacent cells \<open>(288, 48)\<close> and \<open>(312, 48)\<close>, and the list returned is the two
  anchors: one segment, which changes both coordinates.
\<close>

theorem edge_points_diagonal_segment:
  "edge_points (280,46) (317,50) [AARect (-4) (-4) 288 100, AARect 313 0 288 100]
     = Some [(280,46), (317,50)]
   \<and> \<not> orthogonal_path [(280,46), (317,50)]
   \<and> \<not> no_diagonal [(280,46), (317,50)]"
  by (simp add: edge_points_def route_raw_def ROUTE_GRID_def short_route
      enforceRightAngleEndpoints_def orthogonal_path_def axis_step_def no_diagonal_def aligned_def)

subsection \<open>C5: the search terminates\<close>

text \<open>
  Claim C5.  For every start point, end point, obstacle list and grid step,
  \<open>routeManhattanAStar\<close> returns (a path or \<^verbatim>\<open>null\<close>): the backtracking loop over
  the parent links ends, and the main loop has run at most \<open>ROUTE_MAX_ITERS\<close> =
  40000 iterations when it stops (\<open>iters\<close> counts them).
\<close>

theorem routeManhattanAStar_terminates:
  "(\<exists>r. routeManhattanAStar startWorld endWorld obstacles step = Some r) \<and>
   iters (fst (route_search startWorld endWorld obstacles step)) \<le> ROUTE_MAX_ITERS"
proof
  obtain st res where sr: "route_search startWorld endWorld obstacles step = (st, res)"
    by (cases "route_search startWorld endWorld obstacles step")
  have "chain_inv (fst (route_search startWorld endWorld obstacles step))"
    unfolding route_search_def Let_def by (rule chain_inv_astar_loop[OF chain_inv_init])
  with sr have inv: "chain_inv st" by simp
  show "\<exists>r. routeManhattanAStar startWorld endWorld obstacles step = Some r"
  proof (cases res)
    case None
    with sr show ?thesis by (simp add: routeManhattanAStar_def)
  next
    case (Some current)
    from inv obtain r where "backtrack (cameFrom st) current [current] = Some r"
      using backtrack_returns[of "cameFrom st" "gScore st" current "[current]"]
      unfolding chain_inv_def by blast
    with sr Some show ?thesis by (simp add: routeManhattanAStar_def)
  qed
  show "iters (fst (route_search startWorld endWorld obstacles step)) \<le> ROUTE_MAX_ITERS"
    unfolding route_search_def Let_def
    by (rule iters_astar_loop) (simp add: astar_init_def)
qed

subsection \<open>C6: a primary key is not null\<close>

text \<open>
  Claim C6.  For every input text for which the extractor returns a graph, every column
  of every table of the graph whose \<open>isPrimaryKey\<close> flag is set has its \<open>isNotNull\<close>
  flag set.
\<close>

theorem primary_key_columns_not_null:
  assumes "parseSqlToGraph sql = Some g"
  shows "\<forall>t\<in>set (tables g). \<forall>c\<in>set (columns t). isPrimaryKey c \<longrightarrow> isNotNull c"
proof -
  from assms obtain es xs ps where c: "collect sql = Some (es, xs, ps)"
    and g: "g = \<lparr> tables = fold (mark_fk (tableByName ps)) (resolvedRelations ps)
                            (fold (attach_index (tableByName ps)) xs (ps_tables ps)),
                 relations = resolvedRelations ps, enums = es \<rparr>"
    by (auto simp: parseSqlToGraph_def Let_def split: Option.bind_splits)
  have "cols_ok pk_not_null (fold (attach_index (tableByName ps)) xs (ps_tables ps))"
    using collect_cols_ok[OF c] cols_ok_map_columns[OF fold_attach_index_columns] by blast
  then have "cols_ok pk_not_null (fold (mark_fk (tableByName ps)) (resolvedRelations ps)
                            (fold (attach_index (tableByName ps)) xs (ps_tables ps)))"
    by (rule fold_mark_fk_cols_ok) (simp add: pk_not_null_def)
  then have "cols_ok pk_not_null (tables g)"
    unfolding g by simp
  then show ?thesis by (simp add: cols_ok_def pk_not_null_def)
qed

text \<open>
  Witness of C6: the first column of the first table of the end-to-end example is a
  primary key, and it is flagged not null.
\<close>

theorem primary_key_columns_not_null_witness:
  "parseSqlToGraph end_to_end_sql = Some end_to_end_graph
   \<and> isPrimaryKey (hd (columns (hd (tables end_to_end_graph))))
   \<and> isNotNull (hd (columns (hd (tables end_to_end_graph))))"
proof -
  have t: "hd (tables end_to_end_graph) \<in> set (tables end_to_end_graph)"
    and c: "hd (columns (hd (tables end_to_end_graph))) \<in> set (columns (hd (tables end_to_end_graph)))"
    and p: "isPrimaryKey (hd (columns (hd (tables end_to_end_graph))))"
    by (simp_all add: end_to_end_graph_def)
  from primary_key_columns_not_null[OF end_to_end_eval] t c p
  have "isNotNull (hd (columns (hd (tables end_to_end_graph))))" by blast
  with p end_to_end_eval show ?thesis by simp
qed

subsection \<open>C7: enum values\<close>


subsection \<open>C8: the extractor returns\<close>

text \<open>
  Claim C8, as stated, has two parts: the extractor returns a graph for every input
  and never throws, and a malformed fragment produces no partial table, enum, index or
  relation.  The second part fails: a \<^verbatim>\<open>create table\<close> whose parenthesis is never
  closed still yields a table, built from the text up to the end of the input.
\<close>

theorem unclosed_table_counterexample:
  "CHR '')'' \<notin> set unclosed_table_sql
   \<and> parseSqlToGraph unclosed_table_sql =
     Some \<lparr> tables = [\<lparr> t_name = ''t'',
                        columns = [\<lparr> c_name = ''id'', c_type = ''in'', isPrimaryKey = False,
                                     isNotNull = False, isForeignKey = False, fkTo = None,
                                     isEnum = False, enumName = None \<rparr>],
                        indexes = [] \<rparr>],
            relations = [], enums = [] \<rparr>"
  by (simp add: unclosed_table_eval) (simp add: unclosed_table_sql_def)

text \<open>
  Claim C8, amended.  For every input string, the empty string and entirely invalid
  text included, \<open>parseSqlToGraph\<close> returns a graph: no loop over the matches of a
  regular expression runs forever, and no capture group is read where it is
  undefined.  Text in which the keyword \<^verbatim>\<open>create table\<close> does not occur (in any
  letter case, comments removed) yields no table and no relation.
\<close>

theorem parseSqlToGraph_never_throws:
  "(\<exists>g. parseSqlToGraph sql = Some g)
   \<and> (indexOf (toLowerCase (stripComments sql)) ''create table'' 0 = None
        \<longrightarrow> (\<exists>es. parseSqlToGraph sql = Some \<lparr> tables = [], relations = [], enums = es \<rparr>))"
proof
  show "\<exists>g. parseSqlToGraph sql = Some g" by (rule parseSqlToGraph_returns)
next
  show "indexOf (toLowerCase (stripComments sql)) ''create table'' 0 = None
        \<longrightarrow> (\<exists>es. parseSqlToGraph sql = Some \<lparr> tables = [], relations = [], enums = es \<rparr>)"
  proof
    assume none: "indexOf (toLowerCase (stripComments sql)) ''create table'' 0 = None"
    obtain es xs ps where c: "collect sql = Some (es, xs, ps)"
      using collect_returns[of sql] by (metis prod_cases3)
    from collect_blocks[OF c] no_blocks[OF none]
    have ps: "ps = \<lparr> ps_tables = [], ps_relations = [], tableByName = Map.empty,
                     pkByTable = Map.empty \<rparr>"
      by simp
    have "fold (attach_index Map.empty) xs [] = []"
      by (induction xs) (simp_all add: attach_index_def)
    with c ps have "parseSqlToGraph sql = Some \<lparr> tables = [], relations = [], enums = es \<rparr>"
      by (simp add: parseSqlToGraph_def resolvedRelations_def)
    then show "\<exists>es. parseSqlToGraph sql = Some \<lparr> tables = [], relations = [], enums = es \<rparr>"
      by blast
  qed
qed

text \<open>
  Witness of C8: the text \<^verbatim>\<open>select 1;\<close> has no table keyword and yields the empty
  graph.
\<close>

theorem parseSqlToGraph_never_throws_witness:
  "indexOf (toLowerCase (stripComments ''select 1;'')) ''create table'' 0 = None
   \<and> parseSqlToGraph ''select 1;'' = Some \<lparr> tables = [], relations = [], enums = [] \<rparr>"
  using parseSqlToGraph_never_throws[of "''select 1;''"] no_keyword_eval by simp

subsection \<open>C9: nudging out of an obstacle\<close>

text \<open>
  Claim C9, as stated: the cell the search starts from is never inside an obstacle.
  It fails: when none of the six candidates is in bounds and free, \<^verbatim>\<open>nudgeOut\<close>
  returns the blocked cell itself (\<^verbatim>\<open>return ok ?? c\<close>).  Here two nodes of 280 by 92
  stand at \<open>(0, 0)\<close> and \<open>(283, 0)\<close>: the source anchor \<open>(280, 46)\<close> snaps to the cell
  \<open>(288, 48)\<close>, which lies inside the rectangle of the target node, and so do all six
  candidates lie inside one of the two rectangles.  The search starts from \<open>(288, 48)\<close>.
\<close>

theorem search_start_blocked_counterexample:
  "route_s (280,46) (283,46) [AARect (-4) (-4) 288 100, AARect 279 (-4) 288 100] 24 = (288, 48)
   \<and> isBlocked 288 48 [AARect (-4) (-4) 288 100, AARect 279 (-4) 288 100]"
  by (simp add: touching_nodes_cells isBlocked_def pointInRect_def)

text \<open>
  Claim C9, amended.  In \<^verbatim>\<open>routeManhattanAStar\<close>, the search runs from the cell \<open>s\<close>
  to the cell \<open>g\<close> that replace the snapped start \<open>s0\<close> and the snapped goal \<open>g0\<close>:
  a snapped cell outside every obstacle is kept; for a snapped cell inside an obstacle
  the six candidates are tried in their fixed order, and if one of them is in bounds
  and free, the first such candidate replaces the cell and is outside every obstacle;
  if none is, the blocked cell itself is kept.  The search is the main loop started
  with \<open>s\<close> as its only open cell and \<open>g\<close> as its target, and every route that
  \<^verbatim>\<open>routeManhattanAStar\<close> returns is built from a list of cells that begins with \<open>s\<close>
  and ends with \<open>g\<close>.
\<close>

theorem search_cells_nudged:
  "let s0 = search_start startWorld step; g0 = search_start endWorld step;
       b = routeBounds s0 g0 obstacles;
       s = route_s startWorld endWorld obstacles step;
       g = route_g startWorld endWorld obstacles step
   in nudged b obstacles step s0 s \<and> nudged b obstacles step g0 g
      \<and> route_search startWorld endWorld obstacles step
          = astar_loop b obstacles step g (astar_init s g)
      \<and> (\<forall>pts. routeManhattanAStar startWorld endWorld obstacles step = Some (Some pts) \<longrightarrow>
            (\<exists>cells. cells \<noteq> [] \<and> hd cells = s \<and> last cells = g
               \<and> pts = compressOrthogonal (exact_endpoints startWorld endWorld cells)))"
proof -
  define s0 where "s0 = search_start startWorld step"
  define g0 where "g0 = search_start endWorld step"
  define b where "b = routeBounds s0 g0 obstacles"
  define s where "s = route_s startWorld endWorld obstacles step"
  define g where "g = route_g startWorld endWorld obstacles step"
  have ns: "nudged b obstacles step s0 s"
    unfolding s_def route_s_def Let_def b_def s0_def g0_def by (rule nudgeOut_nudged)
  have ng: "nudged b obstacles step g0 g"
    unfolding g_def route_g_def Let_def b_def s0_def g0_def by (rule nudgeOut_nudged)
  have rs: "route_search startWorld endWorld obstacles step
              = astar_loop b obstacles step g (astar_init s g)"
    by (simp add: route_search_def Let_def b_def s0_def g0_def s_def g_def)
  have path: "\<exists>cells. cells \<noteq> [] \<and> hd cells = s \<and> last cells = g
               \<and> pts = compressOrthogonal (exact_endpoints startWorld endWorld cells)"
    if r: "routeManhattanAStar startWorld endWorld obstacles step = Some (Some pts)" for pts
  proof -
    obtain st res where sr: "astar_loop b obstacles step g (astar_init s g) = (st, res)"
      by (cases "astar_loop b obstacles step g (astar_init s g)")
    with r rs obtain cur where res: "res = Some cur"
      by (cases res) (auto simp: routeManhattanAStar_def)
    with r rs sr obtain p where
      bt: "backtrack (cameFrom st) cur [cur] = Some p" and
      pts: "pts = compressOrthogonal (exact_endpoints startWorld endWorld (rev p))"
      by (auto simp: routeManhattanAStar_def)
    have "root_inv s (astar_init s g)" by (rule root_inv_init)
    from root_inv_astar_loop[OF this, of b obstacles step g]
    have "root_inv s (fst (st, res)) \<and> (\<forall>c. snd (st, res) = Some c \<longrightarrow> c = g \<and> gScore (fst (st, res)) c \<noteq> None)"
      unfolding sr .
    with res have ri: "root_inv s st" and cg: "cur = g" and gc: "gScore st cur \<noteq> None"
      by auto
    have "chain_inv (fst (astar_loop b obstacles step g (astar_init s g)))"
      by (rule chain_inv_astar_loop[OF chain_inv_init])
    with sr have ci: "chain_inv st" by simp
    have "last p = s"
    proof (rule backtrack_last[OF bt, where gs = "gScore st"])
      show "\<forall>k p. cameFrom st k = Some p \<longrightarrow> gScore st p \<noteq> None"
        using ci unfolding chain_inv_def by (metis option.distinct(1))
      show "\<forall>k. gScore st k \<noteq> None \<longrightarrow> k = s \<or> cameFrom st k \<noteq> None"
        using ri by (simp add: root_inv_def)
    qed (use gc in simp_all)
    moreover from backtrack_prefix[OF bt] obtain more where p: "p = [cur] @ more" by blast
    ultimately have "rev p \<noteq> []" "hd (rev p) = s" "last (rev p) = g"
      using cg hd_rev[of p] last_rev[of p] by auto
    with pts show ?thesis by blast
  qed
  have "nudged b obstacles step s0 s \<and> nudged b obstacles step g0 g
      \<and> route_search startWorld endWorld obstacles step
          = astar_loop b obstacles step g (astar_init s g)
      \<and> (\<forall>pts. routeManhattanAStar startWorld endWorld obstacles step = Some (Some pts) \<longrightarrow>
            (\<exists>cells. cells \<noteq> [] \<and> hd cells = s \<and> last cells = g
               \<and> pts = compressOrthogonal (exact_endpoints startWorld endWorld cells)))"
    using ns ng rs path by (intro conjI allI impI)
  then show ?thesis
    unfolding Let_def s0_def g0_def b_def s_def g_def .
qed

text \<open>
  Witness of C9.  Two nodes of 280 by 92 at \<open>(4, 0)\<close> and \<open>(400, 0)\<close>: the snapped
  start \<open>(288, 48)\<close> is blocked and its first candidate \<open>(312, 48)\<close> is free; the snapped
  goal \<open>(408, 48)\<close> is blocked, its first candidate is blocked and its second,
  \<open>(384, 48)\<close>, is free; the route returned runs between these two cells.  For the two
  nodes at \<open>(0, 0)\<close> and \<open>(283, 0)\<close> all six candidates of the blocked start are blocked,
  and the start is kept.
\<close>

theorem search_cells_nudged_witness:
  "isBlocked 288 48 [AARect 0 (-4) 288 100, AARect 396 (-4) 288 100]
   \<and> route_s (284,46) (400,46) [AARect 0 (-4) 288 100, AARect 396 (-4) 288 100] 24 = (312, 48)
   \<and> \<not> isBlocked 312 48 [AARect 0 (-4) 288 100, AARect 396 (-4) 288 100]
   \<and> isBlocked 408 48 [AARect 0 (-4) 288 100, AARect 396 (-4) 288 100]
   \<and> route_g (284,46) (400,46) [AARect 0 (-4) 288 100, AARect 396 (-4) 288 100] 24 = (384, 48)
   \<and> \<not> isBlocked 384 48 [AARect 0 (-4) 288 100, AARect 396 (-4) 288 100]
   \<and> routeManhattanAStar (284,46) (400,46) [AARect 0 (-4) 288 100, AARect 396 (-4) 288 100] 24
       = Some (Some [(284,46),(336,48),(360,48),(400,46)])
   \<and> isBlocked 288 48 [AARect (-4) (-4) 288 100, AARect 279 (-4) 288 100]
   \<and> route_s (280,46) (283,46) [AARect (-4) (-4) 288 100, AARect 279 (-4) 288 100] 24 = (288, 48)"
proof -
  define obs where "obs = [AARect 0 (-4) 288 100, AARect 396 (-4) 288 100]"
  define b where "b = Bounds (-260) (-264) 944 356"
  define s where "s = route_s (284,46) (400,46) obs 24"
  define g where "g = route_g (284,46) (400,46) obs 24"
  have bd: "routeBounds (288, 48) (408, 48) obs = b"
    by (simp add: nudged_nodes_cells(3) obs_def b_def)
  from search_cells_nudged[of "(284,46)" 24 "(400,46)" obs]
  have ns: "nudged b obs 24 (288, 48) s" and ng: "nudged b obs 24 (408, 48) g"
    unfolding Let_def nudged_nodes_cells(1,2) bd s_def g_def by blast+
  have bs: "isBlocked (fst (288::real, 48::real)) (snd (288::real, 48::real)) obs"
    and bg: "isBlocked (fst (408::real, 48::real)) (snd (408::real, 48::real)) obs"
    by (simp_all add: isBlocked_def pointInRect_def obs_def)
  have s0: "nudge_ok b obs (nudge_candidates 24 (288, 48) ! 0)"
    by (simp add: nudge_ok_def nudge_candidates_def inBounds_def isBlocked_def pointInRect_def
        obs_def b_def)
  have g0: "\<forall>j<1. \<not> nudge_ok b obs (nudge_candidates 24 (408, 48) ! j)"
    and g1: "nudge_ok b obs (nudge_candidates 24 (408, 48) ! 1)"
    by (simp_all add: nudge_ok_def nudge_candidates_def inBounds_def isBlocked_def pointInRect_def
        obs_def b_def)
  have s: "s = nudge_candidates 24 (288, 48) ! 0 \<and> \<not> isBlocked (fst s) (snd s) obs"
    by (rule nudged_first[OF ns bs _ s0]) simp_all
  have g: "g = nudge_candidates 24 (408, 48) ! 1 \<and> \<not> isBlocked (fst g) (snd g) obs"
    by (rule nudged_first[OF ng bg _ g1 g0]) simp
  define obs2 where "obs2 = [AARect (-4) (-4) 288 100, AARect 279 (-4) 288 100]"
  define b2 where "b2 = Bounds (-264) (-264) 827 356"
  define s2 where "s2 = route_s (280,46) (283,46) obs2 24"
  have bd2: "routeBounds (288, 48) (288, 48) obs2 = b2"
    by (simp add: touching_nodes_cells(3) obs2_def b2_def)
  from search_cells_nudged[of "(280,46)" 24 "(283,46)" obs2]
  have n2: "nudged b2 obs2 24 (288, 48) s2"
    unfolding Let_def touching_nodes_cells(1,2) bd2 s2_def by blast
  have bs2: "isBlocked (fst (288::real, 48::real)) (snd (288::real, 48::real)) obs2"
    by (simp add: isBlocked_def pointInRect_def obs2_def)
  have no2: "\<forall>i<6. \<not> nudge_ok b2 obs2 (nudge_candidates 24 (288, 48) ! i)"
  proof (intro allI impI)
    fix i :: nat assume "i < 6"
    then consider "i = 0" | "i = 1" | "i = 2" | "i = 3" | "i = 4" | "i = 5" by linarith
    then show "\<not> nudge_ok b2 obs2 (nudge_candidates 24 (288, 48) ! i)"
      by cases (simp_all add: nudge_ok_def nudge_candidates_def inBounds_def isBlocked_def
          pointInRect_def obs2_def b2_def)
  qed
  have s2: "s2 = (288, 48)"
    by (rule nudged_none[OF n2 bs2 no2])
  have sv: "s = (312, 48)" and gv: "g = (384, 48)"
    using s g by (simp_all add: nudge_candidates_def)
  have fs: "\<not> isBlocked 312 48 obs" and fg: "\<not> isBlocked 384 48 obs"
    using s g unfolding sv gv by simp_all
  show ?thesis
    using bs bg bs2 sv gv fs fg s2 nudged_nodes_route
    unfolding s_def g_def s2_def obs_def obs2_def by simp
qed

subsection \<open>C10: the exact anchors\<close>

text \<open>
  Claim C10 says that the returned polyline starts at the exact source anchor and ends
  at the exact target anchor.  When both anchors snap to the same cell, the path has
  one cell: the code writes the start into its only point and then overwrites it with
  the end, so the returned list is the single point \<open>end\<close>.  Here the source node
  spans \<open>0..200\<close> and the target node \<open>203..403\<close>; the anchors are \<open>(200, 50)\<close> and
  \<open>(203, 50)\<close>, and the list returned is \<open>[(203, 50)]\<close>: it does not start at the
  source anchor.
\<close>

theorem edge_points_single_cell:
  "edge_points (200,50) (203,50) [AARect (-4) (-4) 208 108, AARect 199 (-4) 208 108]
     = Some [(203,50)]"
  by (simp add: edge_points_def route_raw_def ROUTE_GRID_def close_nodes_route
      enforceRightAngleEndpoints_def)

end
